theory Spec2Isabelle
  imports Complex_Main "HOL-Library.Log_Nat"
begin

section \<open>Grid snapping and order validation of gfdrr\_det/serializers.py\<close>

text \<open>
  Numbers: the code computes on Python floats (the bounding box comes from \<open>float()\<close>, each
  grid value from \<open>float(i)\<close>). A float is modelled by the rational number it denotes, and
  each float operation rounds its exact result to the nearest float (\<open>fl\<close> below). An int
  argument such as \<open>-180\<close> stands for the float of the same value. Exceptions are values of
  the type \<open>error\<close>; a loop that may run forever returns \<open>None\<close>.
\<close>

subsection \<open>Errors\<close>

datatype error =
    RuntimeError string
  | ValidationError string string
  | ValueError
  | IndexError

subsection \<open>Float arithmetic\<close>

text \<open>Rounding to the nearest integer, a tie going to the even one.\<close>

definition round_even :: "rat \<Rightarrow> int" where
  "round_even x =
     (let f = \<lfloor>x\<rfloor>; d = x - of_int f
      in if d < 1/2 then f else if 1/2 < d then f + 1 else if even f then f else f + 1)"

text \<open>The binary exponent of a positive number: \<open>2 ^ e \<le> x < 2 ^ (e + 1)\<close>.\<close>

definition ilog2 :: "rat \<Rightarrow> int" where
  "ilog2 x =
     (if 1 \<le> x then int (floorlog 2 (nat \<lfloor>x\<rfloor>)) - 1
      else - int (floorlog 2 (nat \<lceil>1 / x\<rceil> - 1)))"

text \<open>\<open>fl x\<close> is the binary64 rounding of \<open>x\<close>: the nearest number with a significand of 53
  bits, a tie going to the even significand. The exponent range is not bounded here: a
  result beyond the largest float, which Python holds as an infinity, keeps its rounded
  value; the code only compares such a result with finite floats, with the same outcome.
  Below the normal range a sum or difference of floats is exact, in binary64 and here.
  A float plus, or minus, a float is \<open>fl\<close> of the exact sum, or difference. The float that
  Python writes \<open>0.1\<close> is \<open>fl (1/10)\<close>, and \<open>float(n)\<close> of an int is \<open>fl n\<close>. Infinities and
  NaN are values of \<open>float()\<close> only (\<open>pyfloat\<close> below); they do not pass the range check of
  the bounding box and are no arguments of the grid functions here.\<close>

definition fl :: "rat \<Rightarrow> rat" where
  "fl x =
     (if x = 0 then 0
      else (let e = ilog2 \<bar>x\<bar> - 52
            in sgn x * of_int (round_even (\<bar>x\<bar> / 2 powi e)) * 2 powi e))"

text \<open>The rationals that are floats.\<close>

definition is_float :: "rat \<Rightarrow> bool" where
  "is_float x = (fl x = x)"

subsection \<open>Python list primitives\<close>

text \<open>\<open>max(grid)\<close> of a non-empty list.\<close>

fun max_list :: "rat list \<Rightarrow> rat" where
  "max_list [] = 0"
| "max_list (x # xs) = fold max xs x"

text \<open>\<open>grid.index(x)\<close>: position of the first occurrence, \<open>None\<close> for ValueError.\<close>

fun index_of :: "rat list \<Rightarrow> rat \<Rightarrow> nat option" where
  "index_of [] x = None"
| "index_of (y # ys) x = (if y = x then Some 0 else map_option Suc (index_of ys x))"

text \<open>\<open>grid[i]\<close>: a negative index counts from the end of the list, and an index
  outside \<open>-len .. len-1\<close> raises IndexError.\<close>

definition getitem :: "rat list \<Rightarrow> int \<Rightarrow> error + rat" where
  "getitem xs i =
     (if 0 \<le> i \<and> i < int (length xs) then Inr (xs ! nat i)
      else if i < 0 \<and> - int (length xs) \<le> i then Inr (xs ! nat (int (length xs) + i))
      else Inl IndexError)"

subsection \<open>generate\_1d\_grid\<close>

text \<open>The loop \<open>for i in count(start, step): if i > end: break; grid.append(float(i))\<close>.
  \<open>count\<close> adds the step to its last value, a float addition; \<open>float(i)\<close> is the float of
  \<open>i\<close>. The loop has no bound of its own, so it is a partial function.\<close>

partial_function (option) count_loop :: "rat \<Rightarrow> rat \<Rightarrow> rat \<Rightarrow> rat list \<Rightarrow> rat list option" where
  "count_loop i end_v resolution grid =
     (if i > end_v then Some grid
      else count_loop (fl (i + resolution)) end_v resolution (grid @ [fl i]))"

declare count_loop.simps [code]

definition generate_1d_grid :: "rat \<Rightarrow> rat \<Rightarrow> rat \<Rightarrow> (error + rat list) option" where
  "generate_1d_grid start end_v resolution =
     (if resolution = 0 then Some (Inl (RuntimeError ''grid resolution cannot be zero''))
      else map_option Inr (count_loop start end_v resolution []))"

subsection \<open>snap\_value\<close>

text \<open>The scan of \<open>snap_value\<close>: \<open>result\<close> and \<open>best_delta\<close> are the loop's variables,
  and the loop is left at the first item at distance zero. \<open>value - item\<close> is a float
  subtraction, and so is the addition in \<open>max(grid) + 1\<close>.\<close>

fun snap_loop :: "rat \<Rightarrow> rat list \<Rightarrow> rat option \<Rightarrow> rat \<Rightarrow> rat option" where
  "snap_loop v [] result best_delta = result"
| "snap_loop v (item # rest) result best_delta =
     (let delta = \<bar>fl (v - item)\<bar>;
          result' = (if delta < best_delta then Some item else result);
          best_delta' = (if delta < best_delta then delta else best_delta)
      in if delta = 0 then result' else snap_loop v rest result' best_delta')"

definition snap_value :: "rat \<Rightarrow> rat list \<Rightarrow> error + rat" where
  "snap_value v grid =
     (if grid = [] then Inl ValueError
      else case snap_loop v grid None (fl (max_list grid + 1)) of
             None \<Rightarrow> Inl (RuntimeError ''Could not snap value'')
           | Some r \<Rightarrow> if r \<in> set grid then Inr r
                       else Inl (RuntimeError ''Could not snap value''))"

subsection \<open>enlarge\_coordinate\<close>

definition enlarge_coordinate :: "rat \<Rightarrow> rat list \<Rightarrow> bool \<Rightarrow> error + rat" where
  "enlarge_coordinate v grid floor_flag =
     (case snap_value v grid of
        Inl e \<Rightarrow> Inl e
      | Inr snapped \<Rightarrow>
          (case index_of grid snapped of
             None \<Rightarrow> Inl ValueError
           | Some idx \<Rightarrow>
               if floor_flag then
                 (let next_v = (case getitem grid (int idx - 1) of
                                  Inl e \<Rightarrow> snapped | Inr g \<Rightarrow> g)
                  in Inr (if snapped \<le> v then snapped else next_v))
               else
                 (let next_v = (case getitem grid (int idx + 1) of
                                  Inl e \<Rightarrow> snapped | Inr g \<Rightarrow> g)
                  in Inr (if snapped \<ge> v then snapped else next_v))))"

subsection \<open>snap\_bbox\_to\_grid\<close>

record bbox =
  x0 :: rat
  y0 :: rat
  x1 :: rat
  y1 :: rat

definition snap_bbox_to_grid :: "rat \<Rightarrow> rat \<Rightarrow> rat \<Rightarrow> rat \<Rightarrow> rat \<Rightarrow> (error + bbox) option" where
  "snap_bbox_to_grid resolution bx0 by0 bx1 by1 =
     (case generate_1d_grid (-180) 180 resolution of
        None \<Rightarrow> None
      | Some (Inl e) \<Rightarrow> Some (Inl e)
      | Some (Inr x_grid) \<Rightarrow>
          (case generate_1d_grid (-90) 90 resolution of
             None \<Rightarrow> None
           | Some (Inl e) \<Rightarrow> Some (Inl e)
           | Some (Inr y_grid) \<Rightarrow>
               (case enlarge_coordinate bx0 x_grid True of
                  Inl e \<Rightarrow> Some (Inl e)
                | Inr rx0 \<Rightarrow>
                    (case enlarge_coordinate by0 y_grid True of
                       Inl e \<Rightarrow> Some (Inl e)
                     | Inr ry0 \<Rightarrow>
                         (case enlarge_coordinate bx1 x_grid False of
                            Inl e \<Rightarrow> Some (Inl e)
                          | Inr rx1 \<Rightarrow>
                              (case enlarge_coordinate by1 y_grid False of
                                 Inl e \<Rightarrow> Some (Inl e)
                               | Inr ry1 \<Rightarrow>
                                   Some (Inr \<lparr>x0 = rx0, y0 = ry0, x1 = rx1, y1 = ry1\<rparr>)))))))"

subsection \<open>Strings\<close>

text \<open>\<open>str.lower()\<close> on the ASCII letters; every other character is kept.\<close>

definition is_upper :: "char \<Rightarrow> bool" where
  "is_upper c = (65 \<le> (of_char c :: nat) \<and> (of_char c :: nat) \<le> 90)"

definition lower_char :: "char \<Rightarrow> char" where
  "lower_char c = (if is_upper c then char_of ((of_char c :: nat) + 32) else c)"

definition lower :: "string \<Rightarrow> string" where
  "lower s = map lower_char s"

text \<open>\<open>s.split(sep)\<close> for a one-character separator: the result is never empty, and
  \<open>"".split(",")\<close> is \<open>[""]\<close>.\<close>

fun split_on :: "char \<Rightarrow> string \<Rightarrow> string list" where
  "split_on sep [] = [[]]"
| "split_on sep (c # cs) =
     (if c = sep then [] # split_on sep cs
      else (case split_on sep cs of [] \<Rightarrow> [[c]] | w # ws \<Rightarrow> (c # w) # ws))"

text \<open>\<open>s.partition(sep)[::2]\<close>: the text before the first separator and the text after it.\<close>

definition partition_on :: "char \<Rightarrow> string \<Rightarrow> string \<times> string" where
  "partition_on sep s = (takeWhile (\<lambda>c. c \<noteq> sep) s, drop 1 (dropWhile (\<lambda>c. c \<noteq> sep) s))"

subsection \<open>Values of \<open>float()\<close> and the builtins\<close>

text \<open>\<open>float(s)\<close> may return a finite number, an infinity or NaN. The parsers \<open>float\<close>
  and \<open>int\<close> are Python builtins and are parameters of the model; \<open>None\<close> stands for
  their ValueError.\<close>

datatype pyfloat = Finite rat | PosInf | NegInf | NaN

text \<open>The chained comparison \<open>lo <= x <= hi\<close> with numeric bounds.\<close>

fun between :: "rat \<Rightarrow> pyfloat \<Rightarrow> rat \<Rightarrow> bool" where
  "between lo (Finite q) hi = (lo \<le> q \<and> q \<le> hi)"
| "between lo PosInf hi = False"
| "between lo NegInf hi = False"
| "between lo NaN hi = False"

record builtins =
  py_float :: "string \<Rightarrow> pyfloat option"
  py_int :: "string \<Rightarrow> int option"

subsection \<open>Configuration\<close>

text \<open>What the code reads from \<open>settings\<close> and from \<open>constants.DatasetType\<close>:
  the processing options (name and choices), the optional snap resolution
  \<open>HEV_E["general"].get("bbox_snap_resolution")\<close>, the taxonomy mapping
  \<open>HEV_E["EXPOSURES"]["taxonomy_mappings"]["mapping"]\<close> (category type to the
  keys of its allowed values) and the member names of \<open>DatasetType\<close>.\<close>

record processing_option =
  opt_name :: string
  opt_choices :: "string list"

record settings =
  OSEOSERVER_PROCESSING_OPTIONS :: "processing_option list"
  bbox_snap_resolution :: "rat option"
  taxonomy_mapping :: "(string \<times> string list) list"
  dataset_types :: "string list"

subsection \<open>Order items\<close>

text \<open>An incoming item; \<open>None\<close> is an absent key.\<close>

record requested_item =
  req_layer :: "string option"
  req_format :: "string option"
  req_bbox :: "string option"
  req_taxonomic_categories :: "string option"
  req_event_ids :: "string list option"

record request_data =
  req_order_items :: "requested_item list option"
  req_notification_email :: "string option"

text \<open>A validated item; \<open>taxonomic_categories\<close> and \<open>event_ids\<close> are keys that the
  code sets only on some paths.\<close>

record order_item =
  layer :: string
  format :: string
  bbox :: "bbox option"
  taxonomic_categories :: "string list option"
  event_ids :: "int list option"

record validated_data =
  order_items :: "order_item list"
  notification_email :: "string option"

subsection \<open>Field validators\<close>

definition validate_layer :: "settings \<Rightarrow> string \<Rightarrow> error + (string \<times> string)" where
  "validate_layer conf layer_str =
     (let (collection, layer_name) = partition_on CHR '':'' layer_str
      in if collection \<notin> set (dataset_types conf)
         then Inl (ValidationError ''layer'' ''invalid collection'')
         else Inr (collection, layer_name))"

definition option_name :: "string \<Rightarrow> string" where
  "option_name collection =
     (if collection = ''vulnerability'' then ''vulnerabilityFormat'' else ''format'')"

definition validate_format :: "settings \<Rightarrow> string \<Rightarrow> string \<Rightarrow> error + unit" where
  "validate_format conf format_str collection =
     (case filter (\<lambda>i. opt_name i = option_name collection)
             (OSEOSERVER_PROCESSING_OPTIONS conf) of
        [] \<Rightarrow> Inl IndexError
      | i # rest \<Rightarrow>
          if format_str \<notin> set (opt_choices i)
          then Inl (ValidationError ''format'' ''invalid value'')
          else Inr ())"

text \<open>The loop of \<open>_parse_categories\<close> over the comma-separated tokens. The messages
  carry the offending token; its \<open>repr\<close> quoting is left out.\<close>

fun parse_categories_loop :: "settings \<Rightarrow> string list \<Rightarrow> string list \<Rightarrow> error + string list" where
  "parse_categories_loop conf [] categories = Inr categories"
| "parse_categories_loop conf (cat_info # rest) categories =
     (let info = lower cat_info in
      case split_on CHR '':'' info of
        [cat_type, cat_value] \<Rightarrow>
          (case map_of (taxonomy_mapping conf) cat_type of
             None \<Rightarrow> Inl (ValidationError ''taxonomic_categories''
                            (''Invalid category type: '' @ cat_type))
           | Some allowed_values \<Rightarrow>
               if cat_value \<notin> set allowed_values
               then Inl (ValidationError ''taxonomic_categories''
                            (''Invalid category value: '' @ cat_value))
               else parse_categories_loop conf rest (categories @ [info]))
      | _ \<Rightarrow> Inl (ValidationError ''taxonomic_categories''
                    (''Invalid category '' @ info)))"

definition parse_categories :: "settings \<Rightarrow> string \<Rightarrow> error + string list" where
  "parse_categories conf taxonomic_categories_str =
     parse_categories_loop conf (split_on CHR '','' taxonomic_categories_str) []"

definition parse_event_ids :: "builtins \<Rightarrow> string list \<Rightarrow> error + int list" where
  "parse_event_ids bi raw_event_ids =
     (if list_all (\<lambda>i. py_int bi i \<noteq> None) raw_event_ids
      then Inr (map (\<lambda>i. the (py_int bi i)) raw_event_ids)
      else Inl (ValidationError ''event_ids'' ''Invalid values''))"

text \<open>\<open>_parse_bbox\<close>: unpacking the generator into four names raises ValueError when a
  part does not parse and when there are not exactly four parts.\<close>

definition parse_bbox :: "builtins \<Rightarrow> string \<Rightarrow> error + bbox" where
  "parse_bbox bi bbox_str =
     (case map (py_float bi) (split_on CHR '','' bbox_str) of
        [Some fx0, Some fy0, Some fx1, Some fy1] \<Rightarrow>
          (let valid_x = (between (-180) fx0 180 \<and> between (-180) fx1 180);
               valid_y = (between (-90) fy0 90 \<and> between (-90) fy1 90)
           in if \<not> (valid_x \<and> valid_y)
              then Inl (ValidationError ''bbox'' ''Invalid values. Expecting x0,y0,x1,y1'')
              else (case (fx0, fy0, fx1, fy1) of
                      (Finite qx0, Finite qy0, Finite qx1, Finite qy1) \<Rightarrow>
                        Inr \<lparr>x0 = qx0, y0 = qy0, x1 = qx1, y1 = qy1\<rparr>
                    | _ \<Rightarrow> Inl (ValidationError ''bbox''
                                  ''Invalid values. Expecting x0,y0,x1,y1'')))
      | _ \<Rightarrow> Inl (ValidationError ''bbox'' ''Invalid numeric values''))"

subsection \<open>OrderSerializer.to\_internal\_value\<close>

text \<open>The part of the loop body after the bbox has been settled: the item is built and
  the filters of its collection are parsed.\<close>

definition build_order_item ::
  "settings \<Rightarrow> builtins \<Rightarrow> requested_item \<Rightarrow> string \<Rightarrow> string \<Rightarrow> string \<Rightarrow> bbox option
     \<Rightarrow> error + order_item" where
  "build_order_item conf bi item collection layer_v format_v bbox_v =
     (let order_item = \<lparr>layer = layer_v, format = format_v, bbox = bbox_v,
                        taxonomic_categories = None, event_ids = None\<rparr>
      in if collection = ''exposure'' then
           (case req_taxonomic_categories item of
              None \<Rightarrow> Inr order_item
            | Some cats \<Rightarrow>
                (case parse_categories conf cats of
                   Inl e \<Rightarrow> Inl e
                 | Inr parsed \<Rightarrow> Inr (order_item\<lparr>taxonomic_categories := Some parsed\<rparr>)))
         else if collection = ''hazard'' then
           (case req_event_ids item of
              None \<Rightarrow> Inr order_item
            | Some ids \<Rightarrow>
                (case parse_event_ids bi ids of
                   Inl e \<Rightarrow> Inl e
                 | Inr parsed \<Rightarrow> Inr (order_item\<lparr>event_ids := Some parsed\<rparr>)))
         else Inr order_item)"

text \<open>One pass of the loop \<open>for item in requested_items\<close>.\<close>

definition validate_item :: "settings \<Rightarrow> builtins \<Rightarrow> requested_item \<Rightarrow> (error + order_item) option" where
  "validate_item conf bi item =
     (case req_layer item of
        None \<Rightarrow> Some (Inl (ValidationError ''layer'' ''this field is required''))
      | Some layer_v \<Rightarrow>
          if layer_v = [] then Some (Inl (ValidationError ''layer'' ''this field is required''))
          else (case validate_layer conf layer_v of
                  Inl e \<Rightarrow> Some (Inl e)
                | Inr (collection, layer_name) \<Rightarrow>
                    (let format_v = lower (case req_format item of None \<Rightarrow> [] | Some f \<Rightarrow> f)
                     in if format_v = []
                        then Some (Inl (ValidationError ''format'' ''this field is required''))
                        else (case validate_format conf format_v collection of
                                Inl e \<Rightarrow> Some (Inl e)
                              | Inr u \<Rightarrow>
                                  (case req_bbox item of
                                     None \<Rightarrow> Some (build_order_item conf bi item collection
                                                      layer_v format_v None)
                                   | Some bbox_str \<Rightarrow>
                                       if bbox_str = []
                                       then Some (build_order_item conf bi item collection
                                                    layer_v format_v None)
                                       else (case parse_bbox bi bbox_str of
                                               Inl e \<Rightarrow> Some (Inl e)
                                             | Inr parsed_bbox \<Rightarrow>
                                                 (case bbox_snap_resolution conf of
                                                    None \<Rightarrow>
                                                      Some (build_order_item conf bi item
                                                              collection layer_v format_v
                                                              (Some parsed_bbox))
                                                  | Some grid_resolution \<Rightarrow>
                                                      (case snap_bbox_to_grid grid_resolution
                                                              (x0 parsed_bbox) (y0 parsed_bbox)
                                                              (x1 parsed_bbox) (y1 parsed_bbox) of
                                                         None \<Rightarrow> None
                                                       | Some (Inl e) \<Rightarrow> Some (Inl e)
                                                       | Some (Inr snapped_bbox) \<Rightarrow>
                                                           Some (build_order_item conf bi item
                                                                   collection layer_v format_v
                                                                   (Some snapped_bbox))))))))))"

fun items_loop ::
  "settings \<Rightarrow> builtins \<Rightarrow> requested_item list \<Rightarrow> order_item list
     \<Rightarrow> (error + order_item list) option" where
  "items_loop conf bi [] acc = Some (Inr acc)"
| "items_loop conf bi (item # rest) acc =
     (case validate_item conf bi item of
        None \<Rightarrow> None
      | Some (Inl e) \<Rightarrow> Some (Inl e)
      | Some (Inr oi) \<Rightarrow> items_loop conf bi rest (acc @ [oi]))"

definition to_internal_value :: "settings \<Rightarrow> builtins \<Rightarrow> request_data \<Rightarrow> (error + validated_data) option" where
  "to_internal_value conf bi data =
     (case req_order_items data of
        None \<Rightarrow> Some (Inl (ValidationError ''order_items'' ''this field is required''))
      | Some requested_items \<Rightarrow>
          if requested_items = []
          then Some (Inl (ValidationError ''order_items'' ''this field is required''))
          else (case items_loop conf bi requested_items [] of
                  None \<Rightarrow> None
                | Some (Inl e) \<Rightarrow> Some (Inl e)
                | Some (Inr ois) \<Rightarrow>
                    Some (Inr \<lparr>order_items = ois,
                               notification_email = req_notification_email data\<rparr>)))"

section \<open>Float rounding\<close>

lemma round_even_choice: "round_even x = \<lfloor>x\<rfloor> \<or> round_even x = \<lfloor>x\<rfloor> + 1"
  by (simp add: round_even_def Let_def)

lemma round_even_of_int: "round_even (of_int n) = n"
  by (simp add: round_even_def Let_def)

lemma round_even_error: "\<bar>of_int (round_even x) - x\<bar> \<le> 1/2"
proof -
  define d where "d = x - of_int \<lfloor>x\<rfloor>"
  have d: "0 \<le> d" "d < 1" unfolding d_def by linarith+
  have x: "x = of_int \<lfloor>x\<rfloor> + d" by (simp add: d_def)
  consider "d < 1/2" | "1/2 < d" | "d = 1/2" by linarith
  then show ?thesis
  proof cases
    case 1
    then have "round_even x = \<lfloor>x\<rfloor>" by (simp add: round_even_def Let_def d_def)
    then have "of_int (round_even x) - x = - d" by (simp add: d_def)
    with 1 d show ?thesis by linarith
  next
    case 2
    then have "round_even x = \<lfloor>x\<rfloor> + 1" by (simp add: round_even_def Let_def d_def)
    then have "of_int (round_even x) - x = 1 - d" by (simp add: d_def)
    with 2 d show ?thesis by linarith
  next
    case 3
    from round_even_choice[of x] show ?thesis
    proof
      assume "round_even x = \<lfloor>x\<rfloor>"
      then have "of_int (round_even x) - x = - d" by (simp add: d_def)
      with 3 show ?thesis by linarith
    next
      assume "round_even x = \<lfloor>x\<rfloor> + 1"
      then have "of_int (round_even x) - x = 1 - d" by (simp add: d_def)
      with 3 show ?thesis by linarith
    qed
  qed
qed

lemma two_powi_less_D: "(2::rat) powi a < 2 powi b \<Longrightarrow> a < b"
  using power_int_increasing[of b a "2::rat"] by (cases "a < b") auto

lemma two_powi_le_D: "(2::rat) powi a \<le> 2 powi b \<Longrightarrow> a \<le> b"
  using power_int_strict_increasing[of b a "2::rat"] by (cases "a \<le> b") auto

lemma round_even_mono:
  assumes "x \<le> y"
  shows "round_even x \<le> round_even y"
proof (cases "\<lfloor>x\<rfloor> = \<lfloor>y\<rfloor>")
  case True
  with assms have "x - of_int \<lfloor>x\<rfloor> \<le> y - of_int \<lfloor>y\<rfloor>" by simp
  then show ?thesis using True by (auto simp: round_even_def Let_def)
next
  case False
  with assms have "\<lfloor>x\<rfloor> < \<lfloor>y\<rfloor>" using floor_mono[OF assms] by linarith
  moreover have "round_even x \<le> \<lfloor>x\<rfloor> + 1" using round_even_choice[of x] by auto
  moreover have "\<lfloor>y\<rfloor> \<le> round_even y" using round_even_choice[of y] by auto
  ultimately show ?thesis by linarith
qed

text \<open>\<open>ilog2\<close> is the binary exponent.\<close>

lemma ilog2_bounds:
  assumes "0 < x"
  shows "2 powi ilog2 x \<le> x \<and> x < 2 powi (ilog2 x + 1)"
proof (cases "1 \<le> x")
  case True
  define n where "n = nat \<lfloor>x\<rfloor>"
  define L where "L = floorlog 2 n"
  have n1: "1 \<le> n" using True by (simp add: n_def le_nat_iff le_floor_iff)
  have nx: "of_nat n \<le> x" "x < of_nat n + 1"
    using True by (simp_all add: n_def) linarith+
  from floorlog_bounds[of n 2] n1 have b: "2 ^ (L - 1) \<le> n" "n < 2 ^ L"
    by (simp_all add: L_def)
  have L1: "1 \<le> L" using b(2) n1 by (cases L) auto
  have e: "ilog2 x = int (L - 1)" using True L1 by (simp add: ilog2_def n_def L_def)
  have "(2::rat) ^ (L - 1) \<le> of_nat n" using b(1) by (metis of_nat_le_iff of_nat_numeral of_nat_power)
  with nx(1) have lo: "(2::rat) ^ (L - 1) \<le> x" by linarith
  have "Suc n \<le> 2 ^ L" using b(2) by simp
  then have "(of_nat (Suc n) :: rat) \<le> 2 ^ L" by (metis of_nat_le_iff of_nat_numeral of_nat_power)
  with nx(2) have hi: "x < (2::rat) ^ L" by simp
  have "int (L - 1) + 1 = int L" using L1 by simp
  then show ?thesis using lo hi unfolding e by (simp only: power_int_of_nat)
next
  case False
  define N where "N = \<lceil>1 / x\<rceil>"
  define M where "M = nat N - 1"
  define L where "L = floorlog 2 M"
  have y1: "1 < 1 / x" using False assms by (simp add: field_simps)
  then have N2: "2 \<le> N" unfolding N_def by (simp add: le_ceiling_iff)
  then have M1: "1 \<le> M" by (simp add: M_def)
  have MN: "int M = N - 1" using N2 by (simp add: M_def)
  from floorlog_bounds[of M 2] M1 have b: "2 ^ (L - 1) \<le> M" "M < 2 ^ L"
    by (simp_all add: L_def)
  have L1: "1 \<le> L" using b(2) M1 by (cases L) auto
  have e: "ilog2 x = - int L" using False by (simp add: ilog2_def N_def M_def L_def)
  have yN: "1 / x \<le> of_int N" "of_int N - 1 < 1 / x"
    unfolding N_def by linarith+
  have "Suc M \<le> 2 ^ L" using b(2) by simp
  then have "(of_nat (Suc M) :: rat) \<le> 2 ^ L" by (metis of_nat_le_iff of_nat_numeral of_nat_power)
  moreover have "(of_nat (Suc M) :: rat) = of_int N" using MN by (simp add: algebra_simps)
  ultimately have "1 / x \<le> 2 ^ L" using yN(1) by linarith
  then have lo: "1 / 2 ^ L \<le> x" using assms by (simp add: field_simps)
  have "(2::rat) ^ (L - 1) \<le> of_nat M" using b(1) by (metis of_nat_le_iff of_nat_numeral of_nat_power)
  moreover have "(of_nat M :: rat) = of_int N - 1" using MN by (metis of_int_of_nat_eq of_int_diff of_int_1)
  ultimately have "(2::rat) ^ (L - 1) < 1 / x" using yN(2) by linarith
  then have hi: "x < 1 / 2 ^ (L - 1)" using assms by (simp add: field_simps)
  have p1: "(2::rat) powi (- int L) = 1 / 2 ^ L" by (simp add: power_int_minus_divide)
  have "- int L + 1 = - int (L - 1)" using L1 by simp
  then have p2: "(2::rat) powi (- int L + 1) = 1 / 2 ^ (L - 1)"
    by (simp only: power_int_minus_divide power_int_of_nat)
  show ?thesis unfolding e p1 p2 using lo hi by simp
qed

lemma ilog2_unique:
  assumes "0 < x" "2 powi e \<le> x" "x < 2 powi (e + 1)"
  shows "ilog2 x = e"
proof -
  from ilog2_bounds[OF assms(1)]
  have b: "2 powi ilog2 x \<le> x" "x < 2 powi (ilog2 x + 1)" by simp_all
  have "(2::rat) powi ilog2 x < 2 powi (e + 1)" using b(1) assms(3) by linarith
  then have "ilog2 x < e + 1" by (rule two_powi_less_D)
  moreover have "(2::rat) powi e < 2 powi (ilog2 x + 1)" using b(2) assms(2) by linarith
  then have "e < ilog2 x + 1" by (rule two_powi_less_D)
  ultimately show ?thesis by simp
qed

lemma fl_zero: "fl 0 = 0"
  by (simp add: fl_def)

lemma fl_minus: "fl (- x) = - fl x"
  by (simp add: fl_def Let_def sgn_minus)

lemma fl_pos:
  assumes "0 < x" "2 powi e \<le> x" "x < 2 powi (e + 1)"
  shows "fl x = of_int (round_even (x / 2 powi (e - 52))) * 2 powi (e - 52)"
  using assms(1) ilog2_unique[OF assms] by (simp add: fl_def Let_def)

lemma two_powi_split:
  "(2::rat) powi e = 2 ^ 52 * 2 powi (e - 52)" "(2::rat) powi (e + 1) = 2 ^ 53 * 2 powi (e - 52)"
proof -
  have "(2::rat) powi e = 2 powi (52 + (e - 52))"
    by (rule arg_cong[where f = "\<lambda>k. 2 powi k"]) simp
  also have "\<dots> = 2 powi 52 * 2 powi (e - 52)" by (rule power_int_add) simp
  also have "(2::rat) powi 52 = 2 ^ 52" by simp
  finally show "(2::rat) powi e = 2 ^ 52 * 2 powi (e - 52)" .
  have "(2::rat) powi (e + 1) = 2 powi (53 + (e - 52))"
    by (rule arg_cong[where f = "\<lambda>k. 2 powi k"]) simp
  also have "\<dots> = 2 powi 53 * 2 powi (e - 52)" by (rule power_int_add) simp
  also have "(2::rat) powi 53 = 2 ^ 53" by simp
  finally show "(2::rat) powi (e + 1) = 2 ^ 53 * 2 powi (e - 52)" .
qed

lemma scaled_range:
  assumes "2 powi e \<le> (x::rat)" "x < 2 powi (e + 1)"
  shows "2 ^ 52 \<le> x / 2 powi (e - 52)" "x / 2 powi (e - 52) < 2 ^ 53"
proof -
  have u: "(0::rat) < 2 powi (e - 52)" by simp
  note a = two_powi_split(1)[of e] and b = two_powi_split(2)[of e]
  show "2 ^ 52 \<le> x / 2 powi (e - 52)"
    using assms(1) u unfolding a by (simp only: pos_le_divide_eq)
  show "x / 2 powi (e - 52) < 2 ^ 53"
    using assms(2) u unfolding b by (simp only: pos_divide_less_eq)
qed

lemma fl_pos_range:
  assumes "0 < x" "2 powi e \<le> x" "x < 2 powi (e + 1)"
  shows "2 powi e \<le> fl x" "fl x \<le> 2 powi (e + 1)"
proof -
  let ?u = "(2::rat) powi (e - 52)"
  let ?t = "x / ?u"
  have u: "0 < ?u" by simp
  from scaled_range[OF assms(2,3)] have t: "2 ^ 52 \<le> ?t" "?t < 2 ^ 53" .
  have "round_even (of_int (2 ^ 52)) \<le> round_even ?t"
    by (rule round_even_mono) (use t(1) in simp)
  then have lo: "2 ^ 52 \<le> round_even ?t" by (simp only: round_even_of_int)
  have "round_even ?t \<le> round_even (of_int (2 ^ 53))"
    by (rule round_even_mono) (use t(2) in simp)
  then have hi: "round_even ?t \<le> 2 ^ 53" by (simp only: round_even_of_int)
  note a = two_powi_split(1)[of e] and b = two_powi_split(2)[of e]
  have "(2::rat) ^ 52 \<le> of_int (round_even ?t)" using lo by (metis of_int_le_iff of_int_numeral of_int_power)
  then show "2 powi e \<le> fl x"
    unfolding fl_pos[OF assms] a using u by (simp only: mult_le_cancel_right_pos)
  have "of_int (round_even ?t) \<le> (2::rat) ^ 53" using hi by (metis of_int_le_iff of_int_numeral of_int_power)
  then show "fl x \<le> 2 powi (e + 1)"
    unfolding fl_pos[OF assms] b using u by (simp only: mult_le_cancel_right_pos)
qed

lemma fl_pos_positive: "0 < x \<Longrightarrow> 0 < fl x"
proof -
  assume x: "0 < x"
  from ilog2_bounds[OF x] have b: "2 powi ilog2 x \<le> x" "x < 2 powi (ilog2 x + 1)" by simp_all
  have "(0::rat) < 2 powi ilog2 x" by simp
  with fl_pos_range(1)[OF x b] show ?thesis by linarith
qed

text \<open>Rounding is monotone.\<close>

lemma fl_mono_pos:
  assumes "0 < x" "x \<le> y"
  shows "fl x \<le> fl y"
proof -
  have y: "0 < y" using assms by simp
  from ilog2_bounds[OF assms(1)]
  have bx: "2 powi ilog2 x \<le> x" "x < 2 powi (ilog2 x + 1)" by simp_all
  from ilog2_bounds[OF y]
  have bY: "2 powi ilog2 y \<le> y" "y < 2 powi (ilog2 y + 1)" by simp_all
  have "(2::rat) powi ilog2 x < 2 powi (ilog2 y + 1)" using bx(1) bY(2) assms(2) by linarith
  then have "ilog2 x < ilog2 y + 1" by (rule two_powi_less_D)
  then consider "ilog2 x = ilog2 y" | "ilog2 x + 1 \<le> ilog2 y" by linarith
  then show ?thesis
  proof cases
    case 1
    let ?u = "(2::rat) powi (ilog2 x - 52)"
    have u: "0 < ?u" by simp
    have "x / ?u \<le> y / ?u" using assms(2) u by (intro divide_right_mono) simp_all
    then have "round_even (x / ?u) \<le> round_even (y / ?u)" by (rule round_even_mono)
    then have "(of_int (round_even (x / ?u)) :: rat) \<le> of_int (round_even (y / ?u))" by simp
    then have "of_int (round_even (x / ?u)) * ?u \<le> of_int (round_even (y / ?u)) * ?u"
      using u by (simp only: mult_le_cancel_right_pos)
    then show ?thesis
      unfolding fl_pos[OF assms(1) bx] fl_pos[OF y bY] 1 .
  next
    case 2
    have "fl x \<le> 2 powi (ilog2 x + 1)" by (rule fl_pos_range(2)[OF assms(1) bx])
    also have "\<dots> \<le> 2 powi ilog2 y" using 2 by (intro power_int_increasing) simp_all
    also have "\<dots> \<le> fl y" by (rule fl_pos_range(1)[OF y bY])
    finally show ?thesis .
  qed
qed

lemma fl_mono:
  assumes "x \<le> y"
  shows "fl x \<le> fl y"
proof -
  consider "0 < x" | "x \<le> 0" "0 \<le> y" | "y < 0" using assms by linarith
  then show ?thesis
  proof cases
    case 1
    then show ?thesis using assms by (rule fl_mono_pos)
  next
    case 2
    have "fl x \<le> 0"
    proof (cases "x = 0")
      case True then show ?thesis by (simp add: fl_zero)
    next
      case False
      with 2 have "0 < - x" by simp
      from fl_pos_positive[OF this] show ?thesis by (simp add: fl_minus)
    qed
    moreover have "0 \<le> fl y"
    proof (cases "y = 0")
      case True then show ?thesis by (simp add: fl_zero)
    next
      case False
      with 2 have "0 < y" by simp
      from fl_pos_positive[OF this] show ?thesis by simp
    qed
    ultimately show ?thesis by linarith
  next
    case 3
    then have "0 < - y" "- y \<le> - x" using assms by simp_all
    from fl_mono_pos[OF this] show ?thesis by (simp add: fl_minus)
  qed
qed

lemma fl_nonneg: "0 \<le> x \<Longrightarrow> 0 \<le> fl x"
  using fl_mono[of 0 x] by (simp add: fl_zero)

lemma fl_abs: "\<bar>fl x\<bar> = fl \<bar>x\<bar>"
proof (cases "0 \<le> x")
  case True
  then show ?thesis using fl_nonneg[of x] by simp
next
  case False
  then have "0 \<le> fl (- x)" by (intro fl_nonneg) simp
  then show ?thesis using False by (simp add: fl_minus abs_if)
qed

text \<open>The relative error of rounding is at most \<open>2 ^ -53\<close>.\<close>

lemma fl_error_pos:
  assumes "0 < x"
  shows "\<bar>fl x - x\<bar> \<le> x / 2 ^ 53"
proof -
  define e where "e = ilog2 x"
  let ?u = "(2::rat) powi (e - 52)"
  let ?t = "x / ?u"
  from ilog2_bounds[OF assms]
  have b: "2 powi e \<le> x" "x < 2 powi (e + 1)" by (simp_all add: e_def)
  have u: "0 < ?u" by simp
  have x: "x = ?t * ?u" using u by simp
  have "fl x - x = (of_int (round_even ?t) - ?t) * ?u"
    unfolding fl_pos[OF assms b] using u by (simp add: algebra_simps)
  then have "\<bar>fl x - x\<bar> = \<bar>of_int (round_even ?t) - ?t\<bar> * ?u"
    using u by (simp add: abs_mult)
  also have "\<dots> \<le> (1/2) * ?u"
    using round_even_error[of ?t] u by (simp only: mult_le_cancel_right_pos)
  also have "(1/2) * ?u = 2 powi e / 2 ^ 53"
    unfolding two_powi_split(1)[of e] by simp
  also have "\<dots> \<le> x / 2 ^ 53" using b(1) by (simp add: divide_right_mono)
  finally show ?thesis .
qed

lemma fl_error: "\<bar>fl x - x\<bar> \<le> \<bar>x\<bar> / 2 ^ 53"
proof -
  consider "0 < x" | "x = 0" | "x < 0" by linarith
  then show ?thesis
  proof cases
    case 1
    then show ?thesis using fl_error_pos[OF 1] by simp
  next
    case 2
    then show ?thesis by (simp add: fl_zero)
  next
    case 3
    then have "0 < - x" by simp
    from fl_error_pos[OF this] have "\<bar>- fl x + x\<bar> \<le> - x / 2 ^ 53" by (simp add: fl_minus)
    moreover have "\<bar>- fl x + x\<bar> = \<bar>fl x - x\<bar>" by linarith
    ultimately show ?thesis using 3 by simp
  qed
qed

text \<open>A number \<open>m * 2 ^ p\<close> with \<open>\<bar>m\<bar> < 2 ^ 53\<close> is a float, and every rounded value is one.\<close>

lemma fl_dyadic_pos:
  assumes "0 < m" "m < 2 ^ 53"
  shows "fl (of_int m * 2 powi p) = of_int m * 2 powi p"
proof -
  define x :: rat where "x = of_int m * 2 powi p"
  define e where "e = ilog2 x"
  have x: "0 < x" using assms(1) by (simp add: x_def)
  from ilog2_bounds[OF x]
  have b: "2 powi e \<le> x" "x < 2 powi (e + 1)" by (simp_all add: e_def)
  have "(of_int m :: rat) < 2 ^ 53" using assms(2) by (metis of_int_less_iff of_int_numeral of_int_power)
  then have "x < 2 ^ 53 * 2 powi p" by (simp add: x_def)
  also have "\<dots> = 2 powi (53 + p)"
  proof -
    have "(2::rat) powi (53 + p) = 2 powi 53 * 2 powi p" by (rule power_int_add) simp
    then show ?thesis by simp
  qed
  finally have "(2::rat) powi e < 2 powi (53 + p)" using b(1) by linarith
  then have "e < 53 + p" by (rule two_powi_less_D)
  then have q: "0 \<le> p - (e - 52)" by simp
  have "(2::rat) powi p = 2 powi ((p - (e - 52)) + (e - 52))" by simp
  also have "\<dots> = 2 powi (p - (e - 52)) * 2 powi (e - 52)" by (rule power_int_add) simp
  also have "(2::rat) powi (p - (e - 52)) = 2 ^ nat (p - (e - 52))"
    using q by (rule power_int_nonneg_exp)
  finally have pp: "(2::rat) powi p = 2 ^ nat (p - (e - 52)) * 2 powi (e - 52)" .
  have t: "x / 2 powi (e - 52) = of_int (m * 2 ^ nat (p - (e - 52)))"
    unfolding x_def pp by simp
  have "fl x = of_int (round_even (x / 2 powi (e - 52))) * 2 powi (e - 52)"
    by (rule fl_pos[OF x b])
  also have "\<dots> = of_int (m * 2 ^ nat (p - (e - 52))) * 2 powi (e - 52)"
    unfolding t round_even_of_int ..
  also have "\<dots> = x" unfolding x_def pp by simp
  finally show ?thesis by (simp add: x_def)
qed

lemma fl_dyadic:
  assumes "\<bar>m\<bar> < 2 ^ 53"
  shows "fl (of_int m * 2 powi p) = of_int m * 2 powi p"
proof -
  consider "0 < m" | "m = 0" | "m < 0" by linarith
  then show ?thesis
  proof cases
    case 1
    then show ?thesis using assms by (intro fl_dyadic_pos) simp_all
  next
    case 2
    then show ?thesis by (simp add: fl_zero)
  next
    case 3
    then have "fl (of_int (- m) * 2 powi p) = of_int (- m) * 2 powi p"
      using assms by (intro fl_dyadic_pos) simp_all
    then show ?thesis using fl_minus[of "of_int m * 2 powi p"] by simp
  qed
qed

lemma is_float_of_int: "\<bar>n\<bar> < 2 ^ 53 \<Longrightarrow> is_float (of_int n)"
  using fl_dyadic[of n 0] by (simp add: is_float_def)

lemma is_float_half: "\<bar>n\<bar> < 2 ^ 53 \<Longrightarrow> is_float (of_int n / 2)"
  using fl_dyadic[of n "-1"] by (simp add: is_float_def power_int_minus_divide)

text \<open>Two numbers that differ by a float \<open>r\<close>, the smaller one below \<open>r\<close>, round to
  different floats.\<close>

lemma fl_separates:
  assumes "is_float r" "0 < r" "0 \<le> a" "a < r"
  shows "fl a < fl (a + r)"
proof (rule ccontr)
  assume n: "\<not> fl a < fl (a + r)"
  have r: "fl r = r" using assms(1) by (simp add: is_float_def)
  have "fl a \<le> fl r" using assms(4) by (intro fl_mono) simp
  then have a1: "fl a \<le> r" by (simp add: r)
  have "fl r \<le> fl (a + r)" using assms(3) by (intro fl_mono) simp
  then have a2: "r \<le> fl (a + r)" by (simp add: r)
  from n a1 a2 have e1: "fl a = r" and e2: "fl (a + r) = r" by linarith+
  from fl_error[of a] have "\<bar>r - a\<bar> \<le> a / 2 ^ 53" using assms(3) by (simp add: e1)
  then have b1: "(r - a) * 2 ^ 53 \<le> a" using assms(4) by (simp add: field_simps)
  from fl_error[of "a + r"] have "\<bar>r - (a + r)\<bar> \<le> (a + r) / 2 ^ 53"
    using assms(2,3) by (simp add: e2)
  then have b2: "a * 2 ^ 53 \<le> a + r" using assms(3) by (simp add: field_simps)
  from b1 b2 assms(2,3,4) show False by simp
qed


lemma is_float_fl: "is_float (fl x)"
proof -
  have pos: "fl (fl x) = fl x" if x: "0 < x" for x
  proof -
    define e where "e = ilog2 x"
    from ilog2_bounds[OF x]
    have b: "2 powi e \<le> x" "x < 2 powi (e + 1)" by (simp_all add: e_def)
    let ?M = "round_even (x / 2 powi (e - 52))"
    from scaled_range[OF b] have t: "2 ^ 52 \<le> x / 2 powi (e - 52)" "x / 2 powi (e - 52) < 2 ^ 53" .
    have "round_even (of_int (2 ^ 52)) \<le> ?M"
      by (rule round_even_mono) (use t(1) in simp)
    then have lo: "2 ^ 52 \<le> ?M" by (simp only: round_even_of_int)
    have "?M \<le> round_even (of_int (2 ^ 53))"
      by (rule round_even_mono) (use t(2) in simp)
    then have hi: "?M \<le> 2 ^ 53" by (simp only: round_even_of_int)
    have f: "fl x = of_int ?M * 2 powi (e - 52)" by (rule fl_pos[OF x b])
    show ?thesis
    proof (cases "?M = 2 ^ 53")
      case True
      have "fl x = of_int 1 * 2 powi (e + 1)"
        unfolding f True two_powi_split(2)[of e] by simp
      moreover have "fl (of_int 1 * 2 powi (e + 1)) = of_int 1 * 2 powi (e + 1)"
        by (rule fl_dyadic_pos) simp_all
      ultimately show ?thesis by simp
    next
      case False
      with hi have "?M < 2 ^ 53" by simp
      moreover have "0 < ?M" using lo by simp
      ultimately have "fl (of_int ?M * 2 powi (e - 52)) = of_int ?M * 2 powi (e - 52)"
        by (intro fl_dyadic_pos)
      then show ?thesis unfolding f .
    qed
  qed
  consider "0 < x" | "x = 0" | "x < 0" by linarith
  then have "fl (fl x) = fl x"
  proof cases
    case 1
    then show ?thesis by (rule pos)
  next
    case 2
    then show ?thesis by (simp add: fl_zero)
  next
    case 3
    then have "0 < - x" by simp
    from pos[OF this] show ?thesis by (simp add: fl_minus)
  qed
  then show ?thesis by (simp add: is_float_def)
qed


lemma is_float_numeral: "(numeral w :: int) < 2 ^ 53 \<Longrightarrow> is_float (numeral w)"
  using is_float_of_int[of "numeral w"] by simp

lemma is_float_neg_numeral: "(numeral w :: int) < 2 ^ 53 \<Longrightarrow> is_float (- numeral w)"
  using is_float_of_int[of "- numeral w"] by simp

lemma fl_numeral: "(numeral w :: int) < 2 ^ 53 \<Longrightarrow> fl (numeral w) = numeral w"
  using is_float_numeral[of w] by (simp add: is_float_def)

lemma fl_neg_numeral: "(numeral w :: int) < 2 ^ 53 \<Longrightarrow> fl (- numeral w) = - numeral w"
  using is_float_neg_numeral[of w] by (simp add: is_float_def)

lemma fl_one: "fl 1 = 1"
  using is_float_of_int[of 1] by (simp add: is_float_def)


section \<open>The grid generator\<close>

lemma count_loop_stop: "e < i \<Longrightarrow> count_loop i e r acc = Some acc"
  by (subst count_loop.simps) simp

lemma count_loop_step:
  "\<not> e < i \<Longrightarrow> count_loop i e r acc = count_loop (fl (i + r)) e r (acc @ [fl i])"
  by (subst count_loop.simps) simp

text \<open>A run of the loop that returns was not started at or below a float \<open>s \<le> end\<close> with a
  negative step: such a run stays at or below \<open>s\<close>.\<close>

lemma count_loop_returns:
  assumes "count_loop i e r acc = Some y" and s: "is_float s"
  shows "\<not> (r < 0 \<and> i \<le> s \<and> s \<le> e)"
  using assms(1)
proof (rule count_loop.raw_induct[rotated,
      where P = "\<lambda>i e r acc y. \<not> (r < 0 \<and> i \<le> s \<and> s \<le> e)"])
  fix f :: "rat \<Rightarrow> rat \<Rightarrow> rat \<Rightarrow> rat list \<Rightarrow> rat list option" and i e r acc y
  assume IH: "\<And>i e r acc y. f i e r acc = Some y \<Longrightarrow> \<not> (r < 0 \<and> i \<le> s \<and> s \<le> e)"
    and eq: "(if e < i then Some acc else f (fl (i + r)) e r (acc @ [fl i])) = Some y"
  show "\<not> (r < 0 \<and> i \<le> s \<and> s \<le> e)"
  proof
    assume a: "r < 0 \<and> i \<le> s \<and> s \<le> e"
    with eq have "f (fl (i + r)) e r (acc @ [fl i]) = Some y" by simp
    from IH[OF this] a have "\<not> fl (i + r) \<le> s" by simp
    moreover have "fl (i + r) \<le> fl s" using a by (intro fl_mono) simp
    ultimately show False using s by (simp add: is_float_def)
  qed
qed

lemma count_loop_diverges:
  "r < 0 \<Longrightarrow> is_float s \<Longrightarrow> s \<le> e \<Longrightarrow> count_loop s e r acc = None"
  using count_loop_returns[of s e r acc _ s] by (cases "count_loop s e r acc") auto

text \<open>With a positive step, and when the points \<open>i, i + r, \<dots>, i + (n + 1) * r\<close> are all
  floats, no addition rounds and the loop returns \<open>i, i + r, \<dots>, i + n * r\<close>, where
  \<open>i + n * r\<close> is the last point that does not exceed \<open>end\<close>.\<close>

lemma count_loop_grid:
  assumes "0 < r"
  shows "\<forall>k \<le> Suc n. is_float (i + of_nat k * r) \<Longrightarrow>
     i + of_nat n * r \<le> e \<Longrightarrow> e < i + of_nat (Suc n) * r \<Longrightarrow>
     count_loop i e r acc = Some (acc @ map (\<lambda>k. i + of_nat k * r) [0 ..< Suc n])"
proof (induction n arbitrary: i acc)
  case 0
  from "0.prems"(1) have "is_float (i + of_nat 0 * r)" "is_float (i + of_nat (Suc 0) * r)"
    by blast+
  then have f: "fl i = i" "fl (i + r) = i + r" by (simp_all add: is_float_def)
  have "\<not> e < i" using "0.prems"(2) by simp
  then have "count_loop i e r acc = count_loop (i + r) e r (acc @ [i])"
    by (simp add: count_loop_step f)
  also have "\<dots> = Some (acc @ [i])" using "0.prems"(3) by (intro count_loop_stop) simp
  finally show ?case by simp
next
  case (Suc n)
  from Suc.prems(1) have "is_float (i + of_nat 0 * r)" "is_float (i + of_nat (Suc 0) * r)"
    by (metis le0 , metis Suc_le_mono le0)
  then have f: "fl i = i" "fl (i + r) = i + r" by (simp_all add: is_float_def)
  have "0 \<le> of_nat (Suc n) * r" using assms by simp
  with Suc.prems(2) have le: "\<not> e < i" by linarith
  have ex: "\<forall>k \<le> Suc n. is_float ((i + r) + of_nat k * r)"
  proof (intro allI impI)
    fix k assume "k \<le> Suc n"
    then have "Suc k \<le> Suc (Suc n)" by simp
    with Suc.prems(1) have "is_float (i + of_nat (Suc k) * r)" by blast
    then show "is_float ((i + r) + of_nat k * r)" by (simp add: algebra_simps)
  qed
  have a: "(i + r) + of_nat n * r \<le> e" using Suc.prems(2) by (simp add: algebra_simps)
  have b: "e < (i + r) + of_nat (Suc n) * r" using Suc.prems(3) by (simp add: algebra_simps)
  have "count_loop i e r acc = count_loop (i + r) e r (acc @ [i])"
    using le by (simp add: count_loop_step f)
  also have "\<dots> = Some ((acc @ [i]) @ map (\<lambda>k. (i + r) + of_nat k * r) [0 ..< Suc n])"
    by (rule Suc.IH[OF ex a b])
  also have "(acc @ [i]) @ map (\<lambda>k. (i + r) + of_nat k * r) [0 ..< Suc n]
      = acc @ map (\<lambda>k. i + of_nat k * r) [0 ..< Suc (Suc n)]"
    by (subst (2) map_upt_Suc) (simp add: algebra_simps del: upt_Suc)
  finally show ?case .
qed

lemma last_step_exists:
  assumes "0 < (r::rat)" "i \<le> e"
  shows "\<exists>n::nat. i + of_nat n * r \<le> e \<and> e < i + of_nat (Suc n) * r"
proof -
  define q where "q = \<lfloor>(e - i) / r\<rfloor>"
  have q0: "0 \<le> q" using assms by (simp add: q_def)
  have "of_int q \<le> (e - i) / r" "(e - i) / r < of_int q + 1"
    using floor_correct[of "(e - i) / r"] by (simp_all add: q_def)
  then have "of_int q * r \<le> e - i" "e - i < (of_int q + 1) * r"
    using assms(1) by (simp_all add: pos_le_divide_eq pos_divide_less_eq)
  then have "i + of_nat (nat q) * r \<le> e \<and> e < i + of_nat (Suc (nat q)) * r"
    using q0 by (simp add: algebra_simps)
  then show ?thesis by blast
qed

lemma generate_1d_grid_points:
  assumes "0 < r" "\<forall>k \<le> Suc n. is_float (s + of_nat k * r)"
    "s + of_nat n * r \<le> e" "e < s + of_nat (Suc n) * r"
  shows "generate_1d_grid s e r = Some (Inr (map (\<lambda>k. s + of_nat k * r) [0 ..< Suc n]))"
  using count_loop_grid[OF assms, of "[]"] assms(1) by (simp add: generate_1d_grid_def)

lemma grid_points_ascending:
  assumes "0 < (r::rat)"
  shows "sorted_wrt (<) (map (\<lambda>k. s + of_nat k * r) [0 ..< m])"
proof -
  have "\<And>a b. a < b \<Longrightarrow> s + of_nat a * r < s + of_nat b * r"
    using assms by simp
  then show ?thesis
    by (simp add: sorted_wrt_map sorted_wrt_iff_nth_less del: upt_Suc)
qed

lemma grid_points_mem:
  "x \<in> set (map (\<lambda>k. s + of_nat k * r) [0 ..< Suc n]) \<longleftrightarrow> (\<exists>k \<le> n. x = s + of_nat k * (r::rat))"
  unfolding set_map set_upt by (auto simp only: atLeastLessThan_iff less_Suc_eq_le image_iff Bex_def atLeast0LessThan lessThan_iff)

lemma grid_points_mono:
  "0 < (r::rat) \<Longrightarrow> j \<le> k \<Longrightarrow> s + of_nat j * r \<le> s + of_nat k * r"
  by (simp add: mult_right_mono)

lemma grid_points_index_le:
  assumes "0 < (r::rat)" "s + of_nat j * r < s + of_nat (Suc m) * r"
  shows "j \<le> m"
proof -
  from assms(2) have "of_nat j * r < of_nat (Suc m) * r" by linarith
  with assms(1) have "(of_nat j :: rat) < of_nat (Suc m)" by (simp only: mult_less_cancel_right_pos)
  then show ?thesis by (simp only: of_nat_less_iff less_Suc_eq_le)
qed

text \<open>C5: with resolution zero the generator raises the zero-resolution RuntimeError,
  whatever \<open>start\<close> and \<open>end\<close> are; it returns no grid.\<close>

theorem generate_1d_grid_zero_resolution:
  "generate_1d_grid start end_v 0 = Some (Inl (RuntimeError ''grid resolution cannot be zero''))"
  by (simp add: generate_1d_grid_def)

text \<open>C9: with a float \<open>start \<le> end\<close> and a negative resolution the loop of the generator
  never reaches its exit condition: the call does not return.\<close>

theorem generate_1d_grid_negative_resolution_diverges:
  assumes "is_float start" and "start \<le> end_v" and "resolution < 0"
  shows "generate_1d_grid start end_v resolution = None"
  using assms count_loop_diverges[of resolution start end_v "[]"]
  by (simp add: generate_1d_grid_def)

theorem generate_1d_grid_negative_resolution_diverges_witness:
  "is_float 0 \<and> (0::rat) \<le> 3 \<and> (-1::rat) < 0 \<and> generate_1d_grid 0 3 (-1) = None"
proof -
  have h0: "is_float 0" by (simp add: is_float_def fl_zero)
  have h1: "(0::rat) \<le> 3" and h2: "(-1::rat) < 0" by simp_all
  from generate_1d_grid_negative_resolution_diverges[OF h0 h1 h2] h0 h1 h2 show ?thesis by simp
qed

text \<open>C4, as amended: for \<open>start \<le> end\<close> and a positive resolution \<open>r\<close> such that every
  value \<open>start + k * r\<close> up to \<open>end + r\<close> is a float, so that no addition of the generator
  rounds, the generator returns the grid \<open>start, start + r, \<dots>, start + n * r\<close>; it is
  strictly ascending, its last element is the largest \<open>start + k * r\<close> that does not
  exceed \<open>end\<close>, and no element exceeds \<open>end\<close>.\<close>

theorem generate_1d_grid_ascending:
  assumes "start \<le> end_v" and "0 < resolution"
    and "\<forall>k::nat. start + of_nat k * resolution \<le> end_v + resolution
           \<longrightarrow> is_float (start + of_nat k * resolution)"
  shows "\<exists>grid n. generate_1d_grid start end_v resolution = Some (Inr grid)
           \<and> grid = map (\<lambda>k. start + of_nat k * resolution) [0 ..< Suc n]
           \<and> sorted_wrt (<) grid
           \<and> last grid = start + of_nat n * resolution
           \<and> last grid \<le> end_v
           \<and> (\<forall>k::nat. start + of_nat k * resolution \<le> end_v
                 \<longrightarrow> start + of_nat k * resolution \<le> last grid)
           \<and> (\<forall>x \<in> set grid. x \<le> end_v)"
proof -
  from last_step_exists[OF assms(2) assms(1)] obtain n :: nat
    where lo: "start + of_nat n * resolution \<le> end_v"
      and hi: "end_v < start + of_nat (Suc n) * resolution" by blast
  define grid where "grid = map (\<lambda>k. start + of_nat k * resolution) [0 ..< Suc n]"
  have exact: "\<forall>k \<le> Suc n. is_float (start + of_nat k * resolution)"
  proof (intro allI impI)
    fix k assume "k \<le> Suc n"
    then have "start + of_nat k * resolution \<le> start + of_nat (Suc n) * resolution"
      by (rule grid_points_mono[OF assms(2)])
    also have "\<dots> \<le> end_v + resolution" using lo by (simp add: algebra_simps)
    finally show "is_float (start + of_nat k * resolution)" using assms(3) by blast
  qed
  have g: "generate_1d_grid start end_v resolution = Some (Inr grid)"
    unfolding grid_def by (rule generate_1d_grid_points[OF assms(2) exact lo hi])
  have asc: "sorted_wrt (<) grid"
    unfolding grid_def by (rule grid_points_ascending[OF assms(2)])
  have lst: "last grid = start + of_nat n * resolution"
    by (simp add: grid_def)
  have largest: "start + of_nat k * resolution \<le> last grid"
    if "start + of_nat k * resolution \<le> end_v" for k :: nat
  proof -
    from that hi have "start + of_nat k * resolution < start + of_nat (Suc n) * resolution"
      by linarith
    then have "k \<le> n" by (rule grid_points_index_le[OF assms(2)])
    then show ?thesis unfolding lst by (rule grid_points_mono[OF assms(2)])
  qed
  have below: "x \<le> end_v" if "x \<in> set grid" for x
  proof -
    from that obtain k where k: "k \<le> n" "x = start + of_nat k * resolution"
      unfolding grid_def grid_points_mem by blast
    from grid_points_mono[OF assms(2) k(1), of start] lo k(2) show ?thesis by linarith
  qed
  have bound: "last grid \<le> end_v" using lo lst by simp
  have "generate_1d_grid start end_v resolution = Some (Inr grid)
      \<and> grid = map (\<lambda>k. start + of_nat k * resolution) [0 ..< Suc n]
      \<and> sorted_wrt (<) grid
      \<and> last grid = start + of_nat n * resolution
      \<and> last grid \<le> end_v
      \<and> (\<forall>k::nat. start + of_nat k * resolution \<le> end_v
            \<longrightarrow> start + of_nat k * resolution \<le> last grid)
      \<and> (\<forall>x \<in> set grid. x \<le> end_v)"
    using g asc lst bound largest below grid_def by blast
  then show ?thesis by blast
qed

theorem generate_1d_grid_ascending_witness:
  "(-180::rat) \<le> 180 \<and> (0::rat) < 1/2
   \<and> (\<exists>grid. generate_1d_grid (-180) 180 (1/2) = Some (Inr grid)
          \<and> grid = map (\<lambda>k. -180 + of_nat k * (1/2)) [0 ..< Suc 720]
          \<and> sorted_wrt (<) grid \<and> last grid = 180)"
proof -
  have h1: "(-180::rat) \<le> 180" and h2: "(0::rat) < 1/2" by simp_all
  have h3: "\<forall>k::nat. -180 + of_nat k * (1/2) \<le> 180 + (1/2::rat)
              \<longrightarrow> is_float (-180 + of_nat k * (1/2))"
  proof (intro allI impI)
    fix k :: nat
    assume "-180 + of_nat k * (1/2) \<le> 180 + (1/2::rat)"
    then have "(of_nat k :: rat) \<le> of_nat 721" by simp
    then have k: "k \<le> 721" by (simp only: of_nat_le_iff)
    have e: "-180 + of_nat k * (1/2) = (of_int (int k - 360) :: rat) / 2" by simp
    have "is_float (of_int (int k - 360) / 2)"
      by (rule is_float_half) (use k in simp)
    then show "is_float (-180 + of_nat k * (1/2))" by (simp only: e)
  qed
  from generate_1d_grid_ascending[OF h1 h2 h3] obtain grid n
    where g: "generate_1d_grid (-180) 180 (1/2) = Some (Inr grid)"
      "grid = map (\<lambda>k. -180 + of_nat k * (1/2)) [0 ..< Suc n]"
      "sorted_wrt (<) grid" "last grid = -180 + of_nat n * (1/2)" "last grid \<le> 180"
      "\<forall>k::nat. -180 + of_nat k * (1/2) \<le> (180::rat) \<longrightarrow> -180 + of_nat k * (1/2) \<le> last grid"
    by blast
  have "-180 + of_nat 720 * (1/2) \<le> (180::rat)" by simp
  with g(6) have "-180 + of_nat 720 * (1/2) \<le> last grid" by blast
  with g(4,5) have "(of_nat n :: rat) = of_nat 720" by simp
  then have n: "n = 720" by (simp only: of_nat_eq_iff)
  have "last grid = 180" using g(4) n by simp
  with g(1,2,3) n h1 h2 show ?thesis by blast
qed


lemma count_loop_exact_step:
  "\<not> e < i \<Longrightarrow> fl (i + r) = j \<Longrightarrow> fl i = i \<Longrightarrow>
     count_loop i e r acc = count_loop j e r (acc @ [i])"
  by (simp add: count_loop_step)


text \<open>C4, as stated, for every resolution \<open>r > 0\<close>: with the float \<open>0.1\<close> as resolution on
  \<open>[0, 1]\<close> the additions round. The generator returns eleven values, the last one
  \<open>0.9999999999999999\<close>, while the largest \<open>0 + k * r\<close> that does not exceed 1 is
  \<open>9 * r\<close>.\<close>

theorem generate_1d_grid_rounding_counterexample:
  "fl (1/10) = 3602879701896397 / 36028797018963968
   \<and> generate_1d_grid 0 1 (3602879701896397 / 36028797018963968)
       = Some (Inr [0, 3602879701896397 / 36028797018963968, 3602879701896397 / 18014398509481984, 1351079888211149 / 4503599627370496, 3602879701896397 / 9007199254740992, 1 / 2, 5404319552844595 / 9007199254740992, 3152519739159347 / 4503599627370496, 7205759403792793 / 9007199254740992, 2026619832316723 / 2251799813685248, 9007199254740991 / 9007199254740992])
   \<and> (0::rat) + of_nat 9 * (3602879701896397 / 36028797018963968) \<le> 1
   \<and> (1::rat) < 0 + of_nat 10 * (3602879701896397 / 36028797018963968)
   \<and> (9007199254740991 / 9007199254740992 :: rat) \<noteq> 0 + of_nat 9 * (3602879701896397 / 36028797018963968)"
proof -
  have r: "fl (1/10) = 3602879701896397 / 36028797018963968" by code_simp

  have s0: "count_loop (0) 1 (3602879701896397 / 36028797018963968) []
      = count_loop (3602879701896397 / 36028797018963968) 1 (3602879701896397 / 36028797018963968) [0]"
  proof -
    have a: "\<not> (1::rat) < 0" by simp
    have b: "fl (0 + 3602879701896397 / 36028797018963968) = 3602879701896397 / 36028797018963968" by code_simp
    have c: "fl (0) = 0" by code_simp
    from count_loop_exact_step[OF a b c, of "[]"] show ?thesis by (simp only: append.simps)
  qed

  have s1: "count_loop (3602879701896397 / 36028797018963968) 1 (3602879701896397 / 36028797018963968) [0]
      = count_loop (3602879701896397 / 18014398509481984) 1 (3602879701896397 / 36028797018963968) [0, 3602879701896397 / 36028797018963968]"
  proof -
    have a: "\<not> (1::rat) < 3602879701896397 / 36028797018963968" by simp
    have b: "fl (3602879701896397 / 36028797018963968 + 3602879701896397 / 36028797018963968) = 3602879701896397 / 18014398509481984" by code_simp
    have c: "fl (3602879701896397 / 36028797018963968) = 3602879701896397 / 36028797018963968" by code_simp
    from count_loop_exact_step[OF a b c, of "[0]"] show ?thesis by (simp only: append.simps)
  qed

  have s2: "count_loop (3602879701896397 / 18014398509481984) 1 (3602879701896397 / 36028797018963968) [0, 3602879701896397 / 36028797018963968]
      = count_loop (1351079888211149 / 4503599627370496) 1 (3602879701896397 / 36028797018963968) [0, 3602879701896397 / 36028797018963968, 3602879701896397 / 18014398509481984]"
  proof -
    have a: "\<not> (1::rat) < 3602879701896397 / 18014398509481984" by simp
    have b: "fl (3602879701896397 / 18014398509481984 + 3602879701896397 / 36028797018963968) = 1351079888211149 / 4503599627370496" by code_simp
    have c: "fl (3602879701896397 / 18014398509481984) = 3602879701896397 / 18014398509481984" by code_simp
    from count_loop_exact_step[OF a b c, of "[0, 3602879701896397 / 36028797018963968]"] show ?thesis by (simp only: append.simps)
  qed

  have s3: "count_loop (1351079888211149 / 4503599627370496) 1 (3602879701896397 / 36028797018963968) [0, 3602879701896397 / 36028797018963968, 3602879701896397 / 18014398509481984]
      = count_loop (3602879701896397 / 9007199254740992) 1 (3602879701896397 / 36028797018963968) [0, 3602879701896397 / 36028797018963968, 3602879701896397 / 18014398509481984, 1351079888211149 / 4503599627370496]"
  proof -
    have a: "\<not> (1::rat) < 1351079888211149 / 4503599627370496" by simp
    have b: "fl (1351079888211149 / 4503599627370496 + 3602879701896397 / 36028797018963968) = 3602879701896397 / 9007199254740992" by code_simp
    have c: "fl (1351079888211149 / 4503599627370496) = 1351079888211149 / 4503599627370496" by code_simp
    from count_loop_exact_step[OF a b c, of "[0, 3602879701896397 / 36028797018963968, 3602879701896397 / 18014398509481984]"] show ?thesis by (simp only: append.simps)
  qed

  have s4: "count_loop (3602879701896397 / 9007199254740992) 1 (3602879701896397 / 36028797018963968) [0, 3602879701896397 / 36028797018963968, 3602879701896397 / 18014398509481984, 1351079888211149 / 4503599627370496]
      = count_loop (1 / 2) 1 (3602879701896397 / 36028797018963968) [0, 3602879701896397 / 36028797018963968, 3602879701896397 / 18014398509481984, 1351079888211149 / 4503599627370496, 3602879701896397 / 9007199254740992]"
  proof -
    have a: "\<not> (1::rat) < 3602879701896397 / 9007199254740992" by simp
    have b: "fl (3602879701896397 / 9007199254740992 + 3602879701896397 / 36028797018963968) = 1 / 2" by code_simp
    have c: "fl (3602879701896397 / 9007199254740992) = 3602879701896397 / 9007199254740992" by code_simp
    from count_loop_exact_step[OF a b c, of "[0, 3602879701896397 / 36028797018963968, 3602879701896397 / 18014398509481984, 1351079888211149 / 4503599627370496]"] show ?thesis by (simp only: append.simps)
  qed

  have s5: "count_loop (1 / 2) 1 (3602879701896397 / 36028797018963968) [0, 3602879701896397 / 36028797018963968, 3602879701896397 / 18014398509481984, 1351079888211149 / 4503599627370496, 3602879701896397 / 9007199254740992]
      = count_loop (5404319552844595 / 9007199254740992) 1 (3602879701896397 / 36028797018963968) [0, 3602879701896397 / 36028797018963968, 3602879701896397 / 18014398509481984, 1351079888211149 / 4503599627370496, 3602879701896397 / 9007199254740992, 1 / 2]"
  proof -
    have a: "\<not> (1::rat) < 1 / 2" by simp
    have b: "fl (1 / 2 + 3602879701896397 / 36028797018963968) = 5404319552844595 / 9007199254740992" by code_simp
    have c: "fl (1 / 2) = 1 / 2" by code_simp
    from count_loop_exact_step[OF a b c, of "[0, 3602879701896397 / 36028797018963968, 3602879701896397 / 18014398509481984, 1351079888211149 / 4503599627370496, 3602879701896397 / 9007199254740992]"] show ?thesis by (simp only: append.simps)
  qed

  have s6: "count_loop (5404319552844595 / 9007199254740992) 1 (3602879701896397 / 36028797018963968) [0, 3602879701896397 / 36028797018963968, 3602879701896397 / 18014398509481984, 1351079888211149 / 4503599627370496, 3602879701896397 / 9007199254740992, 1 / 2]
      = count_loop (3152519739159347 / 4503599627370496) 1 (3602879701896397 / 36028797018963968) [0, 3602879701896397 / 36028797018963968, 3602879701896397 / 18014398509481984, 1351079888211149 / 4503599627370496, 3602879701896397 / 9007199254740992, 1 / 2, 5404319552844595 / 9007199254740992]"
  proof -
    have a: "\<not> (1::rat) < 5404319552844595 / 9007199254740992" by simp
    have b: "fl (5404319552844595 / 9007199254740992 + 3602879701896397 / 36028797018963968) = 3152519739159347 / 4503599627370496" by code_simp
    have c: "fl (5404319552844595 / 9007199254740992) = 5404319552844595 / 9007199254740992" by code_simp
    from count_loop_exact_step[OF a b c, of "[0, 3602879701896397 / 36028797018963968, 3602879701896397 / 18014398509481984, 1351079888211149 / 4503599627370496, 3602879701896397 / 9007199254740992, 1 / 2]"] show ?thesis by (simp only: append.simps)
  qed

  have s7: "count_loop (3152519739159347 / 4503599627370496) 1 (3602879701896397 / 36028797018963968) [0, 3602879701896397 / 36028797018963968, 3602879701896397 / 18014398509481984, 1351079888211149 / 4503599627370496, 3602879701896397 / 9007199254740992, 1 / 2, 5404319552844595 / 9007199254740992]
      = count_loop (7205759403792793 / 9007199254740992) 1 (3602879701896397 / 36028797018963968) [0, 3602879701896397 / 36028797018963968, 3602879701896397 / 18014398509481984, 1351079888211149 / 4503599627370496, 3602879701896397 / 9007199254740992, 1 / 2, 5404319552844595 / 9007199254740992, 3152519739159347 / 4503599627370496]"
  proof -
    have a: "\<not> (1::rat) < 3152519739159347 / 4503599627370496" by simp
    have b: "fl (3152519739159347 / 4503599627370496 + 3602879701896397 / 36028797018963968) = 7205759403792793 / 9007199254740992" by code_simp
    have c: "fl (3152519739159347 / 4503599627370496) = 3152519739159347 / 4503599627370496" by code_simp
    from count_loop_exact_step[OF a b c, of "[0, 3602879701896397 / 36028797018963968, 3602879701896397 / 18014398509481984, 1351079888211149 / 4503599627370496, 3602879701896397 / 9007199254740992, 1 / 2, 5404319552844595 / 9007199254740992]"] show ?thesis by (simp only: append.simps)
  qed

  have s8: "count_loop (7205759403792793 / 9007199254740992) 1 (3602879701896397 / 36028797018963968) [0, 3602879701896397 / 36028797018963968, 3602879701896397 / 18014398509481984, 1351079888211149 / 4503599627370496, 3602879701896397 / 9007199254740992, 1 / 2, 5404319552844595 / 9007199254740992, 3152519739159347 / 4503599627370496]
      = count_loop (2026619832316723 / 2251799813685248) 1 (3602879701896397 / 36028797018963968) [0, 3602879701896397 / 36028797018963968, 3602879701896397 / 18014398509481984, 1351079888211149 / 4503599627370496, 3602879701896397 / 9007199254740992, 1 / 2, 5404319552844595 / 9007199254740992, 3152519739159347 / 4503599627370496, 7205759403792793 / 9007199254740992]"
  proof -
    have a: "\<not> (1::rat) < 7205759403792793 / 9007199254740992" by simp
    have b: "fl (7205759403792793 / 9007199254740992 + 3602879701896397 / 36028797018963968) = 2026619832316723 / 2251799813685248" by code_simp
    have c: "fl (7205759403792793 / 9007199254740992) = 7205759403792793 / 9007199254740992" by code_simp
    from count_loop_exact_step[OF a b c, of "[0, 3602879701896397 / 36028797018963968, 3602879701896397 / 18014398509481984, 1351079888211149 / 4503599627370496, 3602879701896397 / 9007199254740992, 1 / 2, 5404319552844595 / 9007199254740992, 3152519739159347 / 4503599627370496]"] show ?thesis by (simp only: append.simps)
  qed

  have s9: "count_loop (2026619832316723 / 2251799813685248) 1 (3602879701896397 / 36028797018963968) [0, 3602879701896397 / 36028797018963968, 3602879701896397 / 18014398509481984, 1351079888211149 / 4503599627370496, 3602879701896397 / 9007199254740992, 1 / 2, 5404319552844595 / 9007199254740992, 3152519739159347 / 4503599627370496, 7205759403792793 / 9007199254740992]
      = count_loop (9007199254740991 / 9007199254740992) 1 (3602879701896397 / 36028797018963968) [0, 3602879701896397 / 36028797018963968, 3602879701896397 / 18014398509481984, 1351079888211149 / 4503599627370496, 3602879701896397 / 9007199254740992, 1 / 2, 5404319552844595 / 9007199254740992, 3152519739159347 / 4503599627370496, 7205759403792793 / 9007199254740992, 2026619832316723 / 2251799813685248]"
  proof -
    have a: "\<not> (1::rat) < 2026619832316723 / 2251799813685248" by simp
    have b: "fl (2026619832316723 / 2251799813685248 + 3602879701896397 / 36028797018963968) = 9007199254740991 / 9007199254740992" by code_simp
    have c: "fl (2026619832316723 / 2251799813685248) = 2026619832316723 / 2251799813685248" by code_simp
    from count_loop_exact_step[OF a b c, of "[0, 3602879701896397 / 36028797018963968, 3602879701896397 / 18014398509481984, 1351079888211149 / 4503599627370496, 3602879701896397 / 9007199254740992, 1 / 2, 5404319552844595 / 9007199254740992, 3152519739159347 / 4503599627370496, 7205759403792793 / 9007199254740992]"] show ?thesis by (simp only: append.simps)
  qed

  have s10: "count_loop (9007199254740991 / 9007199254740992) 1 (3602879701896397 / 36028797018963968) [0, 3602879701896397 / 36028797018963968, 3602879701896397 / 18014398509481984, 1351079888211149 / 4503599627370496, 3602879701896397 / 9007199254740992, 1 / 2, 5404319552844595 / 9007199254740992, 3152519739159347 / 4503599627370496, 7205759403792793 / 9007199254740992, 2026619832316723 / 2251799813685248]
      = count_loop (4953959590107545 / 4503599627370496) 1 (3602879701896397 / 36028797018963968) [0, 3602879701896397 / 36028797018963968, 3602879701896397 / 18014398509481984, 1351079888211149 / 4503599627370496, 3602879701896397 / 9007199254740992, 1 / 2, 5404319552844595 / 9007199254740992, 3152519739159347 / 4503599627370496, 7205759403792793 / 9007199254740992, 2026619832316723 / 2251799813685248, 9007199254740991 / 9007199254740992]"
  proof -
    have a: "\<not> (1::rat) < 9007199254740991 / 9007199254740992" by simp
    have b: "fl (9007199254740991 / 9007199254740992 + 3602879701896397 / 36028797018963968) = 4953959590107545 / 4503599627370496" by code_simp
    have c: "fl (9007199254740991 / 9007199254740992) = 9007199254740991 / 9007199254740992" by code_simp
    from count_loop_exact_step[OF a b c, of "[0, 3602879701896397 / 36028797018963968, 3602879701896397 / 18014398509481984, 1351079888211149 / 4503599627370496, 3602879701896397 / 9007199254740992, 1 / 2, 5404319552844595 / 9007199254740992, 3152519739159347 / 4503599627370496, 7205759403792793 / 9007199254740992, 2026619832316723 / 2251799813685248]"] show ?thesis by (simp only: append.simps)
  qed

  have stop: "count_loop (4953959590107545 / 4503599627370496) 1 (3602879701896397 / 36028797018963968) [0, 3602879701896397 / 36028797018963968, 3602879701896397 / 18014398509481984, 1351079888211149 / 4503599627370496, 3602879701896397 / 9007199254740992, 1 / 2, 5404319552844595 / 9007199254740992, 3152519739159347 / 4503599627370496, 7205759403792793 / 9007199254740992, 2026619832316723 / 2251799813685248, 9007199254740991 / 9007199254740992]
      = Some [0, 3602879701896397 / 36028797018963968, 3602879701896397 / 18014398509481984, 1351079888211149 / 4503599627370496, 3602879701896397 / 9007199254740992, 1 / 2, 5404319552844595 / 9007199254740992, 3152519739159347 / 4503599627370496, 7205759403792793 / 9007199254740992, 2026619832316723 / 2251799813685248, 9007199254740991 / 9007199254740992]"
    by (rule count_loop_stop) simp
  have "count_loop 0 1 (3602879701896397 / 36028797018963968) [] = Some [0, 3602879701896397 / 36028797018963968, 3602879701896397 / 18014398509481984, 1351079888211149 / 4503599627370496, 3602879701896397 / 9007199254740992, 1 / 2, 5404319552844595 / 9007199254740992, 3152519739159347 / 4503599627370496, 7205759403792793 / 9007199254740992, 2026619832316723 / 2251799813685248, 9007199254740991 / 9007199254740992]"
    by (simp only: s0 s1 s2 s3 s4 s5 s6 s7 s8 s9 s10 stop)
  then have g: "generate_1d_grid 0 1 (3602879701896397 / 36028797018963968) = Some (Inr [0, 3602879701896397 / 36028797018963968, 3602879701896397 / 18014398509481984, 1351079888211149 / 4503599627370496, 3602879701896397 / 9007199254740992, 1 / 2, 5404319552844595 / 9007199254740992, 3152519739159347 / 4503599627370496, 7205759403792793 / 9007199254740992, 2026619832316723 / 2251799813685248, 9007199254740991 / 9007199254740992])"
    by (simp add: generate_1d_grid_def)
  have e: "(0::rat) + of_nat 9 * (3602879701896397 / 36028797018963968) \<le> 1" "(1::rat) < 0 + of_nat 10 * (3602879701896397 / 36028797018963968)"
    "(9007199254740991 / 9007199254740992 :: rat) \<noteq> 0 + of_nat 9 * (3602879701896397 / 36028797018963968)" by simp_all
  from r g e show ?thesis by blast
qed

section \<open>Nearest-value snap\<close>

text \<open>Once \<open>result\<close> is set the scan returns a value.\<close>

lemma snap_loop_keeps_result:
  "\<exists>s. snap_loop v xs (Some r) best = Some s"
  by (induction xs arbitrary: r best) (auto simp: Let_def)

lemma snap_loop_finds:
  "\<exists>x \<in> set xs. \<bar>fl (v - x)\<bar> < best \<Longrightarrow> \<exists>s. snap_loop v xs res best = Some s"
proof (induction xs arbitrary: res best)
  case Nil
  then show ?case by simp
next
  case (Cons item rest)
  show ?case
  proof (cases "\<bar>fl (v - item)\<bar> < best")
    case True
    then have "0 < best" using abs_ge_zero[of "fl (v - item)"] by linarith
    with True show ?thesis using snap_loop_keeps_result[of v rest item "\<bar>fl (v - item)\<bar>"]
      by (simp add: Let_def)
  next
    case False
    with Cons.prems have ex: "\<exists>x \<in> set rest. \<bar>fl (v - x)\<bar> < best" by auto
    then have "\<bar>fl (v - item)\<bar> \<noteq> 0" using False by auto
    then show ?thesis using False Cons.IH[OF ex, of res] by (simp add: Let_def)
  qed
qed

text \<open>The value the scan returns: either the \<open>result\<close> it was started with, when no item was
  closer than \<open>best_delta\<close>, or the first item at minimum distance.\<close>

lemma snap_loop_result:
  "snap_loop v xs res best = Some s \<Longrightarrow>
     (res = Some s \<and> (\<forall>x \<in> set xs. best \<le> \<bar>fl (v - x)\<bar>))
   \<or> (\<exists>ys zs. xs = ys @ s # zs \<and> \<bar>fl (v - s)\<bar> < best
         \<and> (\<forall>y \<in> set ys. \<bar>fl (v - s)\<bar> < \<bar>fl (v - y)\<bar>) \<and> (\<forall>z \<in> set zs. \<bar>fl (v - s)\<bar> \<le> \<bar>fl (v - z)\<bar>))"
proof (induction xs arbitrary: res best)
  case Nil
  then show ?case by simp
next
  case (Cons item rest)
  let ?d = "\<bar>fl (v - item)\<bar>"
  let ?Q = "\<lambda>xs best. \<exists>ys zs. xs = ys @ s # zs \<and> \<bar>fl (v - s)\<bar> < best
         \<and> (\<forall>y \<in> set ys. \<bar>fl (v - s)\<bar> < \<bar>fl (v - y)\<bar>) \<and> (\<forall>z \<in> set zs. \<bar>fl (v - s)\<bar> \<le> \<bar>fl (v - z)\<bar>)"
  show ?case
  proof (cases "?d = 0")
    case True
    show ?thesis
    proof (cases "?d < best")
      case lt: True
      with True Cons.prems have "s = item" by (simp add: Let_def)
      then have "item # rest = [] @ s # rest \<and> \<bar>fl (v - s)\<bar> < best
         \<and> (\<forall>y \<in> set []. \<bar>fl (v - s)\<bar> < \<bar>fl (v - y)\<bar>) \<and> (\<forall>z \<in> set rest. \<bar>fl (v - s)\<bar> \<le> \<bar>fl (v - z)\<bar>)"
        using True lt by simp
      then have "?Q (item # rest) best" by blast
      then show ?thesis by blast
    next
      case ge: False
      with True Cons.prems have "res = Some s" by (simp add: Let_def)
      moreover have "\<forall>x \<in> set (item # rest). best \<le> \<bar>fl (v - x)\<bar>"
        using True ge by (auto intro: order_trans[of best 0])
      ultimately show ?thesis by blast
    qed
  next
    case nz: False
    show ?thesis
    proof (cases "?d < best")
      case lt: True
      with nz Cons.prems have "snap_loop v rest (Some item) ?d = Some s" by (simp add: Let_def)
      from Cons.IH[OF this] show ?thesis
      proof
        assume "Some item = Some s \<and> (\<forall>x\<in>set rest. ?d \<le> \<bar>fl (v - x)\<bar>)"
        then have "item # rest = [] @ s # rest \<and> \<bar>fl (v - s)\<bar> < best
         \<and> (\<forall>y \<in> set []. \<bar>fl (v - s)\<bar> < \<bar>fl (v - y)\<bar>) \<and> (\<forall>z \<in> set rest. \<bar>fl (v - s)\<bar> \<le> \<bar>fl (v - z)\<bar>)"
          using lt by auto
        then have "?Q (item # rest) best" by blast
        then show ?thesis by blast
      next
        assume "?Q rest ?d"
        then obtain ys zs where r: "rest = ys @ s # zs" "\<bar>fl (v - s)\<bar> < ?d"
          "\<forall>y \<in> set ys. \<bar>fl (v - s)\<bar> < \<bar>fl (v - y)\<bar>" "\<forall>z \<in> set zs. \<bar>fl (v - s)\<bar> \<le> \<bar>fl (v - z)\<bar>" by blast
        then have "item # rest = (item # ys) @ s # zs \<and> \<bar>fl (v - s)\<bar> < best
         \<and> (\<forall>y \<in> set (item # ys). \<bar>fl (v - s)\<bar> < \<bar>fl (v - y)\<bar>) \<and> (\<forall>z \<in> set zs. \<bar>fl (v - s)\<bar> \<le> \<bar>fl (v - z)\<bar>)"
          using lt by auto
        then have "?Q (item # rest) best" by blast
        then show ?thesis by blast
      qed
    next
      case ge: False
      with nz Cons.prems have "snap_loop v rest res best = Some s" by (simp add: Let_def)
      from Cons.IH[OF this] show ?thesis
      proof
        assume "res = Some s \<and> (\<forall>x\<in>set rest. best \<le> \<bar>fl (v - x)\<bar>)"
        then show ?thesis using ge by auto
      next
        assume "?Q rest best"
        then obtain ys zs where r: "rest = ys @ s # zs" "\<bar>fl (v - s)\<bar> < best"
          "\<forall>y \<in> set ys. \<bar>fl (v - s)\<bar> < \<bar>fl (v - y)\<bar>" "\<forall>z \<in> set zs. \<bar>fl (v - s)\<bar> \<le> \<bar>fl (v - z)\<bar>" by blast
        then have "item # rest = (item # ys) @ s # zs \<and> \<bar>fl (v - s)\<bar> < best
         \<and> (\<forall>y \<in> set (item # ys). \<bar>fl (v - s)\<bar> < \<bar>fl (v - y)\<bar>) \<and> (\<forall>z \<in> set zs. \<bar>fl (v - s)\<bar> \<le> \<bar>fl (v - z)\<bar>)"
          using ge by auto
        then have "?Q (item # rest) best" by blast
        then show ?thesis by blast
      qed
    qed
  qed
qed

text \<open>When some grid value is closer to \<open>v\<close> than \<open>max(grid) + 1\<close>, the scan returns the first
  grid value at minimum computed distance.\<close>

lemma snap_value_nearest:
  assumes "\<exists>x \<in> set grid. \<bar>fl (v - x)\<bar> < fl (max_list grid + 1)"
  shows "\<exists>s ys zs. snap_value v grid = Inr s \<and> grid = ys @ s # zs
           \<and> (\<forall>y \<in> set ys. \<bar>fl (v - s)\<bar> < \<bar>fl (v - y)\<bar>) \<and> (\<forall>z \<in> set zs. \<bar>fl (v - s)\<bar> \<le> \<bar>fl (v - z)\<bar>)"
proof -
  from assms have ne: "grid \<noteq> []" by auto
  from snap_loop_finds[OF assms, of None] obtain s
    where s: "snap_loop v grid None (fl (max_list grid + 1)) = Some s" by blast
  from snap_loop_result[OF s] obtain ys zs where r: "grid = ys @ s # zs"
      "\<forall>y \<in> set ys. \<bar>fl (v - s)\<bar> < \<bar>fl (v - y)\<bar>" "\<forall>z \<in> set zs. \<bar>fl (v - s)\<bar> \<le> \<bar>fl (v - z)\<bar>" by auto
  then have "s \<in> set grid" by simp
  with ne s have "snap_value v grid = Inr s" by (simp add: snap_value_def)
  with r show ?thesis by blast
qed

text \<open>C3: a grid that contains \<open>v\<close> should give \<open>v\<close> back. The latitude grid for the
  resolution 200 is \<open>[-90]\<close>; for \<open>v = -90\<close> the initial \<open>best_delta\<close> is
  \<open>max(grid) + 1 = -89\<close>, the distance 0 is not below it, \<open>result\<close> stays unset and the
  call raises RuntimeError.\<close>

theorem snap_value_member_raises:
  "generate_1d_grid (-90) 90 200 = Some (Inr [-90])
   \<and> (-90::rat) \<in> set [-90] \<and> fl (max_list [-90] + 1) = -89
   \<and> snap_value (-90) [-90] = Inl (RuntimeError ''Could not snap value'')"
  by (simp add: snap_value_def generate_1d_grid_def count_loop.simps
        fl_numeral fl_neg_numeral fl_zero)

text \<open>C6: the candidate at minimum distance should be returned for every non-empty
  sequence, the earlier one on a tie. On the grid \<open>[-90, -70, -50]\<close> and the target
  \<open>-60\<close> the candidates \<open>-70\<close> and \<open>-50\<close> tie at distance 10, but the initial
  \<open>best_delta\<close> is \<open>max(grid) + 1 = -49\<close> and the call raises RuntimeError.\<close>

theorem snap_value_nearest_raises:
  "\<bar>fl (-60 - (-70))\<bar> = 10 \<and> \<bar>fl (-60 - (-50))\<bar> = 10 \<and> \<bar>fl (-60 - (-90))\<bar> = 30
   \<and> fl (max_list [-90, -70, -50] + 1) = -49
   \<and> snap_value (-60) [-90, -70, -50] = Inl (RuntimeError ''Could not snap value'')"
  by (simp add: snap_value_def fl_numeral fl_neg_numeral fl_zero)

section \<open>Coordinate enlargement\<close>

lemma index_of_first:
  "s \<notin> set ys \<Longrightarrow> index_of (ys @ s # zs) s = Some (length ys)"
  by (induction ys) auto

lemma getitem_before:
  "ys \<noteq> [] \<Longrightarrow> getitem (ys @ s # zs) (int (length ys) - 1) = Inr (last ys)"
proof -
  assume ne: "ys \<noteq> []"
  then have l: "0 < length ys" by simp
  then have "nat (int (length ys) - 1) = length ys - 1" by simp
  moreover have "(ys @ s # zs) ! (length ys - 1) = last ys"
    using ne l by (simp add: nth_append last_conv_nth)
  ultimately show ?thesis using l by (simp add: getitem_def)
qed

lemma getitem_after:
  "zs \<noteq> [] \<Longrightarrow> getitem (ys @ s # zs) (int (length ys) + 1) = Inr (hd zs)"
proof -
  assume ne: "zs \<noteq> []"
  have "nat (int (length ys) + 1) = Suc (length ys)" by simp
  moreover have "(ys @ s # zs) ! Suc (length ys) = hd zs"
    using ne by (simp add: nth_append hd_conv_nth)
  ultimately show ?thesis using ne by (simp add: getitem_def)
qed

lemma getitem_past_end:
  "getitem (ys @ [s]) (int (length ys) + 1) = Inl IndexError"
  by (simp add: getitem_def)

lemma max_list_Max: "xs \<noteq> [] \<Longrightarrow> max_list xs = Max (set xs)"
proof (cases xs)
  case Nil
  assume "xs \<noteq> []"
  with Nil show ?thesis by simp
next
  case (Cons a list)
  then show ?thesis by (simp only: max_list.simps Max.set_eq_fold)
qed

lemma max_list_grid:
  assumes "0 < r"
  shows "max_list (map (\<lambda>k. s + of_nat k * r) [0 ..< Suc n]) = s + of_nat n * r"
proof -
  let ?G = "map (\<lambda>k. s + of_nat k * r) [0 ..< Suc n]"
  have "?G \<noteq> []" by simp
  then have "max_list ?G = Max (set ?G)" by (rule max_list_Max)
  also have "\<dots> = s + of_nat n * r"
  proof (rule Max_eqI)
    show "finite (set ?G)" by simp
    show "s + of_nat n * r \<in> set ?G" unfolding grid_points_mem by blast
    fix y assume "y \<in> set ?G"
    then obtain k where "k \<le> n" "y = s + of_nat k * r" unfolding grid_points_mem by blast
    then show "y \<le> s + of_nat n * r" using grid_points_mono[OF assms] by simp
  qed
  finally show ?thesis .
qed


lemma delta_mono: "\<bar>v - x\<bar> \<le> \<bar>v - y\<bar> \<Longrightarrow> \<bar>fl (v - x)\<bar> \<le> \<bar>fl (v - y)\<bar>"
  unfolding fl_abs by (rule fl_mono)

text \<open>On a grid \<open>s, s + r, \<dots>, s + n * r\<close> whose ends are far enough below
  \<open>max(grid) + 1\<close>, some grid value passes the first test of the scan.\<close>

lemma snap_value_on_grid:
  assumes r: "0 < r" and range: "s \<le> v" "v \<le> s + of_nat n * r"
    and room: "fl (of_nat n * r / 2) < fl (s + of_nat n * r + 1)"
  shows "\<exists>x \<in> set (map (\<lambda>k. s + of_nat k * r) [0 ..< Suc n]).
           \<bar>fl (v - x)\<bar> < fl (max_list (map (\<lambda>k. s + of_nat k * r) [0 ..< Suc n]) + 1)"
proof -
  let ?G = "map (\<lambda>k. s + of_nat k * r) [0 ..< Suc n]"
  have a: "s + of_nat 0 * r \<in> set ?G" unfolding grid_points_mem by blast
  have b: "s + of_nat n * r \<in> set ?G" unfolding grid_points_mem by blast
  have half: "0 \<le> of_nat n * r / 2" using r by simp
  show ?thesis
  proof (cases "v - s \<le> of_nat n * r / 2")
    case True
    have "\<bar>v - (s + of_nat 0 * r)\<bar> = v - s" using range(1) by simp
    with True half have "\<bar>v - (s + of_nat 0 * r)\<bar> \<le> \<bar>of_nat n * r / 2\<bar>" by linarith
    then have "fl \<bar>v - (s + of_nat 0 * r)\<bar> \<le> fl \<bar>of_nat n * r / 2\<bar>" by (rule fl_mono)
    also have "\<bar>of_nat n * r / 2\<bar> = of_nat n * r / 2" using half by simp
    finally have "\<bar>fl (v - (s + of_nat 0 * r))\<bar> < fl (s + of_nat n * r + 1)"
      using room by (simp add: fl_abs)
    with a show ?thesis unfolding max_list_grid[OF r] by blast
  next
    case False
    have "\<bar>v - (s + of_nat n * r)\<bar> = s + of_nat n * r - v" using range(2) by simp
    with False half have "\<bar>v - (s + of_nat n * r)\<bar> \<le> \<bar>of_nat n * r / 2\<bar>" by linarith
    then have "fl \<bar>v - (s + of_nat n * r)\<bar> \<le> fl \<bar>of_nat n * r / 2\<bar>" by (rule fl_mono)
    also have "\<bar>of_nat n * r / 2\<bar> = of_nat n * r / 2" using half by simp
    finally have "\<bar>fl (v - (s + of_nat n * r))\<bar> < fl (s + of_nat n * r + 1)"
      using room by (simp add: fl_abs)
    with b show ?thesis unfolding max_list_grid[OF r] by blast
  qed
qed

text \<open>The value the scan returns on such a grid sits at the last grid position at or
  below \<open>v\<close>, or at the next one: the computed distances of two grid values that differ by
  the float \<open>r\<close> differ too when the nearer one is closer than \<open>r\<close>.\<close>

lemma snap_index_on_grid:
  assumes r: "0 < r" and fr: "is_float r"
    and m: "s + of_nat m * r \<le> v" "v < s + of_nat (Suc m) * r" "m \<le> n"
    and dec: "map (\<lambda>k. s + of_nat k * r) [0 ..< Suc n] = ys @ c # zs"
    and first: "\<forall>y \<in> set ys. \<bar>fl (v - c)\<bar> < \<bar>fl (v - y)\<bar>"
    and least: "\<forall>z \<in> set zs. \<bar>fl (v - c)\<bar> \<le> \<bar>fl (v - z)\<bar>"
  shows "length ys = m \<or> (length ys = Suc m \<and> Suc m \<le> n)"
proof -
  let ?G = "map (\<lambda>k. s + of_nat k * r) [0 ..< Suc n]"
  let ?g = "\<lambda>k. s + of_nat k * r"
  define j where "j = length ys"
  have len: "length ys + Suc (length zs) = Suc n"
    using arg_cong[OF dec, of length] by simp
  then have jn: "j \<le> n" by (simp add: j_def)
  have nth: "?G ! i = ?g i" if "i \<le> n" for i
    using that by (simp add: nth_map del: upt_Suc)
  have c: "c = ?g j"
    using nth[OF jn] unfolding dec j_def by simp
  have before: "?g i \<in> set ys" if "i < j" for i
  proof -
    from that jn have "i \<le> n" by simp
    from nth[OF this] have "(ys @ c # zs) ! i = ?g i" unfolding dec .
    moreover from that have il: "i < length ys" by (simp add: j_def)
    ultimately have "ys ! i = ?g i" by (simp add: nth_append)
    with nth_mem[OF il] show ?thesis by simp
  qed
  have after: "?g i \<in> set zs" if "j < i" "i \<le> n" for i
  proof -
    from nth[OF that(2)] have "(ys @ c # zs) ! i = ?g i" unfolding dec .
    moreover have il: "i - length ys - 1 < length zs" using that len by (simp add: j_def)
    ultimately have "zs ! (i - length ys - 1) = ?g i" using that(1)
      by (simp add: nth_append j_def nth_Cons')
    with nth_mem[OF il] show ?thesis by simp
  qed
  have not_low: "\<not> j < m"
  proof
    assume lt: "j < m"
    then obtain p where p: "m = Suc p" "j \<le> p" by (cases m) auto
    from after[OF lt m(3)] least have 1: "\<bar>fl (v - c)\<bar> \<le> \<bar>fl (v - ?g m)\<bar>" by blast
    have cp: "?g j \<le> ?g p" by (rule grid_points_mono[OF r p(2)])
    have pm: "?g p \<le> v" using m(1) r unfolding p(1) by (simp add: algebra_simps)
    have "\<bar>v - ?g p\<bar> \<le> \<bar>v - c\<bar>" using cp pm unfolding c by simp
    then have 2: "\<bar>fl (v - ?g p)\<bar> \<le> \<bar>fl (v - c)\<bar>" by (rule delta_mono)
    define a where "a = v - ?g m"
    have a: "0 \<le> a" "a < r" using m(1,2) by (simp_all add: a_def algebra_simps)
    have ar: "v - ?g p = a + r" unfolding a_def p(1) by (simp add: algebra_simps)
    from fl_separates[OF fr r a] have "fl a < fl (a + r)" .
    moreover have "0 \<le> fl a" using a(1) by (rule fl_nonneg)
    ultimately have "\<bar>fl (v - ?g m)\<bar> < \<bar>fl (v - ?g p)\<bar>"
      unfolding ar a_def[symmetric] by simp
    with 1 2 show False by linarith
  qed
  have not_high: "\<not> Suc m < j"
  proof
    assume gt: "Suc m < j"
    from before[OF gt] first have 1: "\<bar>fl (v - c)\<bar> < \<bar>fl (v - ?g (Suc m))\<bar>" by blast
    have "?g (Suc m) \<le> ?g j" using gt by (intro grid_points_mono[OF r]) simp
    then have "\<bar>v - ?g (Suc m)\<bar> \<le> \<bar>v - c\<bar>" using m(2) unfolding c by simp
    then have "\<bar>fl (v - ?g (Suc m))\<bar> \<le> \<bar>fl (v - c)\<bar>" by (rule delta_mono)
    with 1 show False by linarith
  qed
  from not_low not_high jn show ?thesis unfolding j_def by linarith
qed

lemma enlarge_floor_on_grid:
  assumes r: "0 < r" and fr: "is_float r"
    and range: "s \<le> v" "v \<le> s + of_nat n * r"
    and room: "fl (of_nat n * r / 2) < fl (s + of_nat n * r + 1)"
    and m: "s + of_nat m * r \<le> v" "v < s + of_nat (Suc m) * r"
  shows "enlarge_coordinate v (map (\<lambda>k. s + of_nat k * r) [0 ..< Suc n]) True
           = Inr (s + of_nat m * r)"
proof -
  let ?G = "map (\<lambda>k. s + of_nat k * r) [0 ..< Suc n]"
  let ?g = "\<lambda>k. s + of_nat k * r"
  from snap_value_nearest[OF snap_value_on_grid[OF r range room]] obtain c ys zs
    where snap: "snap_value v ?G = Inr c" "?G = ys @ c # zs"
      "\<forall>y \<in> set ys. \<bar>fl (v - c)\<bar> < \<bar>fl (v - y)\<bar>" "\<forall>z \<in> set zs. \<bar>fl (v - c)\<bar> \<le> \<bar>fl (v - z)\<bar>"
    by blast
  have "?g m < ?g (Suc n)" using m(1) range(2) r by (simp add: algebra_simps)
  then have mn: "m \<le> n" by (rule grid_points_index_le[OF r])
  have nth: "?G ! i = ?g i" if "i \<le> n" for i
    using that by (simp add: nth_map del: upt_Suc)
  have "c \<notin> set ys" using snap(3) by auto
  then have idx: "index_of ?G c = Some (length ys)"
    unfolding snap(2) by (rule index_of_first)
  have len: "length ys + Suc (length zs) = Suc n"
    using arg_cong[OF snap(2), of length] by simp
  have c: "c = ?g (length ys)"
  proof -
    have "length ys \<le> n" using len by simp
    from nth[OF this] show ?thesis unfolding snap(2) by simp
  qed
  from snap_index_on_grid[OF r fr m mn snap(2,3,4)]
  show ?thesis
  proof
    assume j: "length ys = m"
    then have "c \<le> v" using m(1) c by simp
    then show ?thesis using snap(1) idx c j by (simp add: enlarge_coordinate_def Let_def)
  next
    assume j: "length ys = Suc m \<and> Suc m \<le> n"
    then have gt: "\<not> c \<le> v" using m(2) c by simp
    have ne: "ys \<noteq> []" using j by auto
    have "last ys = ys ! m" using j ne by (simp add: last_conv_nth)
    also have "\<dots> = (ys @ c # zs) ! m" using j by (simp add: nth_append)
    also have "\<dots> = ?g m" using nth[OF mn] unfolding snap(2) .
    finally have l: "last ys = ?g m" .
    show ?thesis
      using gt snap(1) idx getitem_before[OF ne, of c zs] l
      by (simp add: enlarge_coordinate_def Let_def snap(2)[symmetric])
  qed
qed

lemma enlarge_ceiling_on_grid:
  assumes r: "0 < r" and fr: "is_float r"
    and range: "s \<le> v" "v \<le> s + of_nat n * r"
    and room: "fl (of_nat n * r / 2) < fl (s + of_nat n * r + 1)"
    and m: "v \<le> s + of_nat m * r" "s + of_nat m * r < v + r" "m \<le> n"
  shows "enlarge_coordinate v (map (\<lambda>k. s + of_nat k * r) [0 ..< Suc n]) False
           = Inr (s + of_nat m * r)"
proof -
  let ?G = "map (\<lambda>k. s + of_nat k * r) [0 ..< Suc n]"
  let ?g = "\<lambda>k. s + of_nat k * r"
  from snap_value_nearest[OF snap_value_on_grid[OF r range room]] obtain c ys zs
    where snap: "snap_value v ?G = Inr c" "?G = ys @ c # zs"
      "\<forall>y \<in> set ys. \<bar>fl (v - c)\<bar> < \<bar>fl (v - y)\<bar>" "\<forall>z \<in> set zs. \<bar>fl (v - c)\<bar> \<le> \<bar>fl (v - z)\<bar>"
    by blast
  have nth: "?G ! i = ?g i" if "i \<le> n" for i
    using that by (simp add: nth_map del: upt_Suc)
  have "c \<notin> set ys" using snap(3) by auto
  then have idx: "index_of ?G c = Some (length ys)"
    unfolding snap(2) by (rule index_of_first)
  have len: "length ys + Suc (length zs) = Suc n"
    using arg_cong[OF snap(2), of length] by simp
  have c: "c = ?g (length ys)"
  proof -
    have "length ys \<le> n" using len by simp
    from nth[OF this] show ?thesis unfolding snap(2) by simp
  qed
  show ?thesis
  proof (cases "v = ?g m")
    case True
    have f: "?g m \<le> v" "v < ?g (Suc m)" using True r by simp_all
    from snap_index_on_grid[OF r fr f m(3) snap(2,3,4)]
    have "length ys = m"
    proof
      assume "length ys = m" then show ?thesis .
    next
      assume j: "length ys = Suc m \<and> Suc m \<le> n"
      have "(ys @ c # zs) ! m = ?g m" using nth[OF m(3)] unfolding snap(2) .
      moreover have il: "m < length ys" using j by simp
      ultimately have "ys ! m = ?g m" by (simp add: nth_append)
      with nth_mem[OF il] have "?g m \<in> set ys" by simp
      with snap(3) have "\<bar>fl (v - c)\<bar> < \<bar>fl (v - ?g m)\<bar>" by blast
      then show ?thesis using True by (simp add: fl_zero)
    qed
    then have "c = v" using c True by simp
    then show ?thesis using snap(1) idx True by (simp add: enlarge_coordinate_def Let_def)
  next
    case False
    with m(1) have lt: "v < ?g m" by simp
    have "m \<noteq> 0" using lt range(1) by (cases m) auto
    then obtain p where p: "m = Suc p" by (cases m) auto
    have f: "?g p \<le> v" "v < ?g (Suc p)"
      using m(2) lt unfolding p by (simp_all add: algebra_simps)
    have pn: "p \<le> n" using m(3) p by simp
    from snap_index_on_grid[OF r fr f pn snap(2,3,4)]
    show ?thesis
    proof
      assume j: "length ys = p"
      then have below: "\<not> v \<le> c" using f(1) m(2) c unfolding p
        by (simp add: algebra_simps)
      have ne: "zs \<noteq> []" using len j m(3) p by auto
      have "hd zs = zs ! 0" using ne by (simp add: hd_conv_nth)
      also have "\<dots> = (ys @ c # zs) ! m" using j p by (simp add: nth_append)
      also have "\<dots> = ?g m" using nth[OF m(3)] unfolding snap(2) .
      finally have h: "hd zs = ?g m" .
      show ?thesis
        using below snap(1) idx getitem_after[OF ne, of ys c] h
        by (simp add: enlarge_coordinate_def Let_def snap(2)[symmetric])
    next
      assume j: "length ys = Suc p \<and> Suc p \<le> n"
      then have "c = ?g m" using c p by simp
      then show ?thesis using snap(1) idx lt by (simp add: enlarge_coordinate_def Let_def)
    qed
  qed
qed

lemma ceiling_step_exists:
  assumes r: "0 < (r::rat)" and range: "s \<le> v" "v \<le> s + of_nat n * r"
  shows "\<exists>m::nat. v \<le> s + of_nat m * r \<and> s + of_nat m * r < v + r \<and> m \<le> n"
proof -
  from last_step_exists[OF r range(1)] obtain k :: nat
    where k: "s + of_nat k * r \<le> v" "v < s + of_nat (Suc k) * r" by blast
  show ?thesis
  proof (cases "s + of_nat k * r = v")
    case True
    have "s + of_nat k * r < s + of_nat (Suc n) * r" using True range(2) r by (simp add: algebra_simps)
    then have "k \<le> n" by (rule grid_points_index_le[OF r])
    with True r show ?thesis by (intro exI[of _ k]) simp
  next
    case False
    with k(1) have lt: "s + of_nat k * r < v" by simp
    then have "s + of_nat k * r < s + of_nat n * r" using range(2) by simp
    then have "of_nat k * r < of_nat n * r" by simp
    with r have "(of_nat k :: rat) < of_nat n" by (simp only: mult_less_cancel_right_pos)
    then have "Suc k \<le> n" by (simp only: of_nat_less_iff Suc_le_eq)
    moreover have "v \<le> s + of_nat (Suc k) * r" using k(2) by simp
    moreover have "s + of_nat (Suc k) * r < v + r" using lt by (simp add: algebra_simps)
    ultimately show ?thesis by blast
  qed
qed

text \<open>C1: in the floor case, when the snapped value exceeds \<open>v\<close> and sits at the first
  grid position, the snapped value should be returned. For \<open>v = -181\<close> on the longitude
  grid of resolution 90 the snapped value is \<open>-180\<close> at index 0; \<open>grid[0 - 1]\<close> is the
  last element and raises no IndexError, so the call returns 180.\<close>

theorem enlarge_coordinate_first_position_wraps:
  "generate_1d_grid (-180) 180 90 = Some (Inr [-180, -90, 0, 90, 180])
   \<and> snap_value (-181) [-180, -90, 0, 90, 180] = Inr (-180)
   \<and> index_of [-180, -90, 0, 90, 180] (-180) = Some 0
   \<and> getitem [-180, -90, 0, 90, 180] (int 0 - 1) = Inr 180
   \<and> enlarge_coordinate (-181) [-180, -90, 0, 90, 180] True = Inr 180"
  by (simp add: enlarge_coordinate_def snap_value_def getitem_def
        generate_1d_grid_def count_loop.simps fl_numeral fl_neg_numeral fl_zero
        fl_one fl_minus)

section \<open>Bounding-box grid snap\<close>

text \<open>When 180 is a whole multiple of the resolution and the grid values are floats, both
  grids reach the end of their domain and each edge of the box is moved to the grid
  point on its outer side.\<close>

lemma snap_bbox_to_grid_pinned:
  assumes r: "0 < r" and fr: "is_float r" and k: "of_nat k * r = 180"
    and xe: "\<forall>j \<le> Suc (2 * k). is_float (-180 + of_nat j * r)"
    and ye: "\<forall>j \<le> Suc k. is_float (-90 + of_nat j * r)"
    and xr: "-180 \<le> bx0" "bx0 \<le> 180" "-180 \<le> bx1" "bx1 \<le> 180"
    and yr: "-90 \<le> by0" "by0 \<le> 90" "-90 \<le> by1" "by1 \<le> 90"
    and a: "-180 + of_nat a * r \<le> bx0" "bx0 < -180 + of_nat (Suc a) * r"
    and b: "-90 + of_nat b * r \<le> by0" "by0 < -90 + of_nat (Suc b) * r"
    and c: "bx1 \<le> -180 + of_nat c * r" "-180 + of_nat c * r < bx1 + r" "c \<le> 2 * k"
    and d: "by1 \<le> -90 + of_nat d * r" "-90 + of_nat d * r < by1 + r" "d \<le> k"
  shows "generate_1d_grid (-180) 180 r = Some (Inr (map (\<lambda>j. -180 + of_nat j * r) [0 ..< Suc (2 * k)]))"
    and "generate_1d_grid (-90) 90 r = Some (Inr (map (\<lambda>j. -90 + of_nat j * r) [0 ..< Suc k]))"
    and "snap_bbox_to_grid r bx0 by0 bx1 by1 =
           Some (Inr \<lparr>x0 = -180 + of_nat a * r, y0 = -90 + of_nat b * r,
                      x1 = -180 + of_nat c * r, y1 = -90 + of_nat d * r\<rparr>)"
proof -
  have k2: "of_nat (2 * k) * r = 360" by (simp add: mult.assoc k)
  have xg: "generate_1d_grid (-180) 180 r
      = Some (Inr (map (\<lambda>j. -180 + of_nat j * r) [0 ..< Suc (2 * k)]))"
  proof (rule generate_1d_grid_points[OF r xe])
    show "- 180 + of_nat (2 * k) * r \<le> 180" unfolding k2 by simp
    have "of_nat (Suc (2 * k)) * r = 360 + r" using k2 by (simp add: algebra_simps)
    then show "180 < - 180 + of_nat (Suc (2 * k)) * r" using r by simp
  qed
  have yg: "generate_1d_grid (-90) 90 r
      = Some (Inr (map (\<lambda>j. -90 + of_nat j * r) [0 ..< Suc k]))"
  proof (rule generate_1d_grid_points[OF r ye])
    show "- 90 + of_nat k * r \<le> 90" unfolding k by simp
    have "of_nat (Suc k) * r = 180 + r" using k by (simp add: algebra_simps)
    then show "90 < - 90 + of_nat (Suc k) * r" using r by simp
  qed
  have xroom: "fl (of_nat (2 * k) * r / 2) < fl (-180 + of_nat (2 * k) * r + 1)"
    unfolding k2 by (simp add: fl_numeral)
  have yroom: "fl (of_nat k * r / 2) < fl (-90 + of_nat k * r + 1)"
    unfolding k by (simp add: fl_numeral)
  have xhi: "bx0 \<le> -180 + of_nat (2 * k) * r" "bx1 \<le> -180 + of_nat (2 * k) * r"
    unfolding k2 using xr by simp_all
  have yhi: "by0 \<le> -90 + of_nat k * r" "by1 \<le> -90 + of_nat k * r"
    unfolding k using yr by simp_all
  have e1: "enlarge_coordinate bx0 (map (\<lambda>j. -180 + of_nat j * r) [0 ..< Suc (2 * k)]) True
      = Inr (-180 + of_nat a * r)"
    by (rule enlarge_floor_on_grid[OF r fr xr(1) xhi(1) xroom a])
  have e2: "enlarge_coordinate by0 (map (\<lambda>j. -90 + of_nat j * r) [0 ..< Suc k]) True
      = Inr (-90 + of_nat b * r)"
    by (rule enlarge_floor_on_grid[OF r fr yr(1) yhi(1) yroom b])
  have e3: "enlarge_coordinate bx1 (map (\<lambda>j. -180 + of_nat j * r) [0 ..< Suc (2 * k)]) False
      = Inr (-180 + of_nat c * r)"
    by (rule enlarge_ceiling_on_grid[OF r fr xr(3) xhi(2) xroom c])
  have e4: "enlarge_coordinate by1 (map (\<lambda>j. -90 + of_nat j * r) [0 ..< Suc k]) False
      = Inr (-90 + of_nat d * r)"
    by (rule enlarge_ceiling_on_grid[OF r fr yr(3) yhi(2) yroom d])
  show "generate_1d_grid (-180) 180 r = Some (Inr (map (\<lambda>j. -180 + of_nat j * r) [0 ..< Suc (2 * k)]))"
    by (rule xg)
  show "generate_1d_grid (-90) 90 r = Some (Inr (map (\<lambda>j. -90 + of_nat j * r) [0 ..< Suc k]))"
    by (rule yg)
  show "snap_bbox_to_grid r bx0 by0 bx1 by1 =
           Some (Inr \<lparr>x0 = -180 + of_nat a * r, y0 = -90 + of_nat b * r,
                      x1 = -180 + of_nat c * r, y1 = -90 + of_nat d * r\<rparr>)"
    by (simp only: snap_bbox_to_grid_def xg yg e1 e2 e3 e4 option.case sum.case)
qed

lemma half_grid_floats:
  "\<forall>j \<le> Suc (2 * 360). is_float (-180 + of_nat j * (1/2))"
  "\<forall>j \<le> Suc 360. is_float (-90 + of_nat j * (1/2))"
proof -
  show "\<forall>j \<le> Suc (2 * 360). is_float (-180 + of_nat j * (1/2))"
  proof (intro allI impI)
    fix j :: nat assume j: "j \<le> Suc (2 * 360)"
    have e: "-180 + of_nat j * (1/2) = (of_int (int j - 360) :: rat) / 2" by simp
    have "is_float (of_int (int j - 360) / 2)" by (rule is_float_half) (use j in simp)
    then show "is_float (-180 + of_nat j * (1/2))" by (simp only: e)
  qed
  show "\<forall>j \<le> Suc 360. is_float (-90 + of_nat j * (1/2))"
  proof (intro allI impI)
    fix j :: nat assume j: "j \<le> Suc 360"
    have e: "-90 + of_nat j * (1/2) = (of_int (int j - 180) :: rat) / 2" by simp
    have "is_float (of_int (int j - 180) / 2)" by (rule is_float_half) (use j in simp)
    then show "is_float (-90 + of_nat j * (1/2))" by (simp only: e)
  qed
qed

text \<open>C2, as amended: for every float resolution \<open>r > 0\<close> of which 180 is a whole multiple
  and for which every grid value \<open>-180 + j * r\<close> up to \<open>180 + r\<close> and \<open>-90 + j * r\<close> up to
  \<open>90 + r\<close> is a float, so that no addition of the generator rounds, and every box with
  \<open>x\<close> in \<open>[-180, 180]\<close> and \<open>y\<close> in \<open>[-90, 90]\<close>, \<open>snap_bbox_to_grid\<close> returns a box that
  contains the input box and whose edges lie on the generated grids; for \<open>r = 0.5\<close> and
  the box of the floats \<open>10.3, 20.7, 15.1, 25.2\<close> the result is
  \<open>(10.0, 20.5, 15.5, 25.5)\<close>.\<close>

theorem snap_bbox_to_grid_contains:
  assumes r: "0 < r" and fr: "is_float r" and k: "of_nat k * r = 180"
    and xe: "\<forall>j \<le> Suc (2 * k). is_float (-180 + of_nat j * r)"
    and ye: "\<forall>j \<le> Suc k. is_float (-90 + of_nat j * r)"
    and xr: "-180 \<le> bx0" "bx0 \<le> 180" "-180 \<le> bx1" "bx1 \<le> 180"
    and yr: "-90 \<le> by0" "by0 \<le> 90" "-90 \<le> by1" "by1 \<le> 90"
  shows "(\<exists>x_grid y_grid box.
            generate_1d_grid (-180) 180 r = Some (Inr x_grid)
          \<and> generate_1d_grid (-90) 90 r = Some (Inr y_grid)
          \<and> snap_bbox_to_grid r bx0 by0 bx1 by1 = Some (Inr box)
          \<and> x0 box \<le> bx0 \<and> y0 box \<le> by0 \<and> bx1 \<le> x1 box \<and> by1 \<le> y1 box
          \<and> x0 box \<in> set x_grid \<and> y0 box \<in> set y_grid
          \<and> x1 box \<in> set x_grid \<and> y1 box \<in> set y_grid)
       \<and> snap_bbox_to_grid (1/2) (fl (103/10)) (fl (207/10)) (fl (151/10)) (fl (126/5))
            = Some (Inr \<lparr>x0 = 10, y0 = 41/2, x1 = 31/2, y1 = 51/2\<rparr>)"
proof
  have k2: "of_nat (2 * k) * r = 360" by (simp add: mult.assoc k)
  from last_step_exists[OF r xr(1)] obtain a :: nat
    where a: "-180 + of_nat a * r \<le> bx0" "bx0 < -180 + of_nat (Suc a) * r" by blast
  from last_step_exists[OF r yr(1)] obtain b :: nat
    where b: "-90 + of_nat b * r \<le> by0" "by0 < -90 + of_nat (Suc b) * r" by blast
  have "bx1 \<le> -180 + of_nat (2 * k) * r" unfolding k2 using xr by simp
  from ceiling_step_exists[OF r xr(3) this] obtain c :: nat
    where c: "bx1 \<le> -180 + of_nat c * r" "-180 + of_nat c * r < bx1 + r" "c \<le> 2 * k" by blast
  have "by1 \<le> -90 + of_nat k * r" unfolding k using yr by simp
  from ceiling_step_exists[OF r yr(3) this] obtain d :: nat
    where d: "by1 \<le> -90 + of_nat d * r" "-90 + of_nat d * r < by1 + r" "d \<le> k" by blast
  note p = snap_bbox_to_grid_pinned[OF r fr k xe ye xr yr a b c d]
  have "-180 + of_nat a * r < -180 + of_nat (Suc (2 * k)) * r"
    using a(1) xr(2) k2 r by (simp add: algebra_simps)
  then have ak: "a \<le> 2 * k" by (rule grid_points_index_le[OF r])
  have "-90 + of_nat b * r < -90 + of_nat (Suc k) * r"
    using b(1) yr(2) k r by (simp add: algebra_simps)
  then have bk: "b \<le> k" by (rule grid_points_index_le[OF r])
  let ?xg = "map (\<lambda>j. -180 + of_nat j * r) [0 ..< Suc (2 * k)]"
  let ?yg = "map (\<lambda>j. -90 + of_nat j * r) [0 ..< Suc k]"
  let ?box = "\<lparr>x0 = -180 + of_nat a * r, y0 = -90 + of_nat b * r,
                      x1 = -180 + of_nat c * r, y1 = -90 + of_nat d * r\<rparr>"
  have m1: "x0 ?box \<in> set ?xg" using ak unfolding grid_points_mem by auto
  have m2: "y0 ?box \<in> set ?yg" using bk unfolding grid_points_mem by auto
  have m3: "x1 ?box \<in> set ?xg" using c(3) unfolding grid_points_mem by auto
  have m4: "y1 ?box \<in> set ?yg" using d(3) unfolding grid_points_mem by auto
  have "generate_1d_grid (-180) 180 r = Some (Inr ?xg)
          \<and> generate_1d_grid (-90) 90 r = Some (Inr ?yg)
          \<and> snap_bbox_to_grid r bx0 by0 bx1 by1 = Some (Inr ?box)
          \<and> x0 ?box \<le> bx0 \<and> y0 ?box \<le> by0 \<and> bx1 \<le> x1 ?box \<and> by1 \<le> y1 ?box
          \<and> x0 ?box \<in> set ?xg \<and> y0 ?box \<in> set ?yg
          \<and> x1 ?box \<in> set ?xg \<and> y1 ?box \<in> set ?yg"
    using p m1 m2 m3 m4 a(1) b(1) c(1) d(1) by simp
  then show "\<exists>x_grid y_grid box.
            generate_1d_grid (-180) 180 r = Some (Inr x_grid)
          \<and> generate_1d_grid (-90) 90 r = Some (Inr y_grid)
          \<and> snap_bbox_to_grid r bx0 by0 bx1 by1 = Some (Inr box)
          \<and> x0 box \<le> bx0 \<and> y0 box \<le> by0 \<and> bx1 \<le> x1 box \<and> by1 \<le> y1 box
          \<and> x0 box \<in> set x_grid \<and> y0 box \<in> set y_grid
          \<and> x1 box \<in> set x_grid \<and> y1 box \<in> set y_grid"
    by blast
next
  have v: "fl (103/10) = 2899192260119757 / 281474976710656"
    "fl (207/10) = 5826532017910579 / 281474976710656"
    "fl (151/10) = 8500544296661811 / 562949953421312"
    "fl (126/5) = 7093169413108531 / 281474976710656"
    by code_simp+
  have h: "is_float (1/2)" using is_float_half[of 1] by simp
  have "snap_bbox_to_grid (1/2) (fl (103/10)) (fl (207/10)) (fl (151/10)) (fl (126/5)) =
           Some (Inr \<lparr>x0 = -180 + of_nat 380 * (1/2), y0 = -90 + of_nat 221 * (1/2),
                      x1 = -180 + of_nat 391 * (1/2), y1 = -90 + of_nat 231 * (1/2)\<rparr>)"
    unfolding v
    by (rule snap_bbox_to_grid_pinned(3)[where k = 360, OF _ h _ half_grid_floats]) simp_all
  then show "snap_bbox_to_grid (1/2) (fl (103/10)) (fl (207/10)) (fl (151/10)) (fl (126/5))
            = Some (Inr \<lparr>x0 = 10, y0 = 41/2, x1 = 31/2, y1 = 51/2\<rparr>)"
    by simp
qed

theorem snap_bbox_to_grid_contains_witness:
  "((0::rat) < 1/2 \<and> is_float (1/2) \<and> of_nat 360 * (1/2::rat) = 180
      \<and> (-180::rat) \<le> 1/4 \<and> (1/4::rat) \<le> 180 \<and> (-180::rat) \<le> 3/4 \<and> (3/4::rat) \<le> 180
      \<and> (-90::rat) \<le> 1/4 \<and> (1/4::rat) \<le> 90 \<and> (-90::rat) \<le> 3/4 \<and> (3/4::rat) \<le> 90)
   \<and> (\<exists>box. snap_bbox_to_grid (1/2) (1/4) (1/4) (3/4) (3/4) = Some (Inr box)
          \<and> x0 box \<le> 1/4 \<and> y0 box \<le> 1/4 \<and> 3/4 \<le> x1 box \<and> 3/4 \<le> y1 box)
   \<and> snap_bbox_to_grid (1/2) (fl (103/10)) (fl (207/10)) (fl (151/10)) (fl (126/5))
            = Some (Inr \<lparr>x0 = 10, y0 = 41/2, x1 = 31/2, y1 = 51/2\<rparr>)"
proof -
  have h1: "(0::rat) < 1/2" by simp
  have h2: "is_float (1/2)" using is_float_half[of 1] by simp
  have h3: "of_nat 360 * (1/2::rat) = 180" by simp
  note h4 = half_grid_floats
  have h5: "(-180::rat) \<le> 1/4" "(1/4::rat) \<le> 180" "(-180::rat) \<le> 3/4" "(3/4::rat) \<le> 180"
    "(-90::rat) \<le> 1/4" "(1/4::rat) \<le> 90" "(-90::rat) \<le> 3/4" "(3/4::rat) \<le> 90"
    by simp_all
  from snap_bbox_to_grid_contains[OF h1 h2 h3 h4 h5] h1 h2 h3 h5 show ?thesis by blast
qed

text \<open>C2, as stated, for every \<open>r > 0\<close>: with resolution 100 the longitude grid ends at 120,
  and the upper edge 180 is moved inward to 120.\<close>

theorem snap_bbox_to_grid_coarse_counterexample:
  "snap_bbox_to_grid 100 0 0 180 0 = Some (Inr \<lparr>x0 = -80, y0 = -90, x1 = 120, y1 = 10\<rparr>)
   \<and> (120::rat) < 180"
  by (simp add: snap_bbox_to_grid_def generate_1d_grid_def count_loop.simps
      enlarge_coordinate_def snap_value_def getitem_def Let_def
      fl_numeral fl_neg_numeral fl_zero fl_one fl_minus)

section \<open>Strings and lowercasing\<close>

lemma lower_char_not_upper: "\<not> is_upper (lower_char c)"
proof (cases "is_upper c")
  case True
  then have "(of_char c :: nat) + 32 < 256" by (simp add: is_upper_def)
  then have "(of_char (char_of ((of_char c :: nat) + 32)) :: nat) = of_char c + 32"
    by (simp only: of_char_of mod_less)
  with True show ?thesis by (simp add: lower_char_def is_upper_def)
next
  case False
  then show ?thesis by (simp add: lower_char_def)
qed

lemma lower_char_idem: "lower_char (lower_char c) = lower_char c"
  using lower_char_not_upper[of c] by (simp add: lower_char_def[of "lower_char c"])

lemma lower_idem: "lower (lower s) = lower s"
  by (simp add: lower_def lower_char_idem)

lemma lower_no_upper: "c \<in> set (lower s) \<Longrightarrow> \<not> is_upper c"
  by (auto simp: lower_def lower_char_not_upper)

lemma lower_char_eq_sep:
  assumes "(of_char sep :: nat) < 65"
  shows "lower_char c = sep \<longleftrightarrow> c = sep"
proof (cases "is_upper c")
  case True
  then have "(of_char c :: nat) + 32 < 256" by (simp add: is_upper_def)
  then have e: "(of_char (char_of ((of_char c :: nat) + 32)) :: nat) = of_char c + 32"
    by (simp only: of_char_of mod_less)
  have "lower_char c \<noteq> sep"
  proof
    assume "lower_char c = sep"
    then have "(of_char (lower_char c) :: nat) < 65" using assms by simp
    with True e show False by (simp add: lower_char_def is_upper_def)
  qed
  moreover have "c \<noteq> sep" using True assms by (auto simp: is_upper_def)
  ultimately show ?thesis by simp
next
  case False
  then show ?thesis by (simp add: lower_char_def)
qed

lemma split_on_nonempty: "split_on sep s \<noteq> []"
  by (induction s) (auto split: list.splits)

lemma split_on_lower:
  assumes "(of_char sep :: nat) < 65"
  shows "split_on sep (lower s) = map lower (split_on sep s)"
proof (induction s)
  case Nil
  then show ?case by (simp add: lower_def)
next
  case (Cons c cs)
  obtain w ws where w: "split_on sep cs = w # ws"
    using split_on_nonempty[of sep cs] by (cases "split_on sep cs") auto
  from Cons have IH: "split_on sep (map lower_char cs) = map lower (split_on sep cs)"
    by (simp add: lower_def)
  show ?case
    using lower_char_eq_sep[OF assms, of c] IH w
    by (simp add: lower_def)
qed

lemma parse_categories_loop_lowered:
  "parse_categories_loop conf (map lower toks) acc = parse_categories_loop conf toks acc"
  by (induction toks arbitrary: acc)
     (simp_all add: lower_idem Let_def split: list.splits option.splits)

lemma parse_categories_loop_result:
  "parse_categories_loop conf toks acc = Inr cats \<Longrightarrow> cats = acc @ map lower toks"
proof (induction toks arbitrary: acc)
  case Nil
  then show ?case by simp
next
  case (Cons tok toks)
  from Cons.prems have "parse_categories_loop conf toks (acc @ [lower tok]) = Inr cats"
    by (auto simp: Let_def split: list.splits option.splits if_splits)
  from Cons.IH[OF this] show ?case by simp
qed

lemma parse_categories_result:
  "parse_categories conf s = Inr cats \<Longrightarrow> cats = map lower (split_on CHR '','' s)"
  using parse_categories_loop_result[of conf "split_on CHR '','' s" "[]" cats]
  by (simp add: parse_categories_def)

lemma parse_categories_lowered:
  "parse_categories conf (lower s) = parse_categories conf s"
  by (simp add: parse_categories_def split_on_lower parse_categories_loop_lowered)

section \<open>Format validation\<close>

text \<open>C8: when the processing options hold an entry for the option key of the collection
  (\<open>vulnerabilityFormat\<close> for the collection \<open>vulnerability\<close>, \<open>format\<close> for every other
  one), \<open>_validate_format\<close> accepts the format token exactly when it is among the choices
  of the first such entry, and otherwise raises the validation error on the field
  \<open>format\<close>.\<close>

theorem validate_format_whitelist:
  assumes "filter (\<lambda>i. opt_name i = option_name collection) (OSEOSERVER_PROCESSING_OPTIONS conf) \<noteq> []"
  shows "option_name collection
           = (if collection = ''vulnerability'' then ''vulnerabilityFormat'' else ''format'')
       \<and> (validate_format conf format_str collection = Inr ()
            \<longleftrightarrow> format_str \<in> set (opt_choices (hd (filter (\<lambda>i. opt_name i = option_name collection)
                                       (OSEOSERVER_PROCESSING_OPTIONS conf)))))
       \<and> (validate_format conf format_str collection \<noteq> Inr ()
            \<longrightarrow> validate_format conf format_str collection
                  = Inl (ValidationError ''format'' ''invalid value''))"
  using assms
  by (cases "filter (\<lambda>i. opt_name i = option_name collection) (OSEOSERVER_PROCESSING_OPTIONS conf)")
     (simp_all add: validate_format_def option_name_def)

theorem validate_format_whitelist_witness:
  "filter (\<lambda>i. opt_name i = option_name ''exposure'')
     (OSEOSERVER_PROCESSING_OPTIONS
        \<lparr>OSEOSERVER_PROCESSING_OPTIONS =
            [\<lparr>opt_name = ''vulnerabilityFormat'', opt_choices = [''csv'']\<rparr>,
             \<lparr>opt_name = ''format'', opt_choices = [''shapefile'', ''geotiff'']\<rparr>],
          bbox_snap_resolution = None, taxonomy_mapping = [],
          dataset_types = [''exposure'', ''hazard'', ''vulnerability'']\<rparr>) \<noteq> []
   \<and> validate_format
        \<lparr>OSEOSERVER_PROCESSING_OPTIONS =
            [\<lparr>opt_name = ''vulnerabilityFormat'', opt_choices = [''csv'']\<rparr>,
             \<lparr>opt_name = ''format'', opt_choices = [''shapefile'', ''geotiff'']\<rparr>],
          bbox_snap_resolution = None, taxonomy_mapping = [],
          dataset_types = [''exposure'', ''hazard'', ''vulnerability'']\<rparr>
        ''geotiff'' ''exposure'' = Inr ()
   \<and> validate_format
        \<lparr>OSEOSERVER_PROCESSING_OPTIONS =
            [\<lparr>opt_name = ''vulnerabilityFormat'', opt_choices = [''csv'']\<rparr>,
             \<lparr>opt_name = ''format'', opt_choices = [''shapefile'', ''geotiff'']\<rparr>],
          bbox_snap_resolution = None, taxonomy_mapping = [],
          dataset_types = [''exposure'', ''hazard'', ''vulnerability'']\<rparr>
        ''bogus'' ''exposure'' = Inl (ValidationError ''format'' ''invalid value'')"
proof -
  let ?conf = "\<lparr>OSEOSERVER_PROCESSING_OPTIONS =
            [\<lparr>opt_name = ''vulnerabilityFormat'', opt_choices = [''csv'']\<rparr>,
             \<lparr>opt_name = ''format'', opt_choices = [''shapefile'', ''geotiff'']\<rparr>],
          bbox_snap_resolution = None, taxonomy_mapping = [],
          dataset_types = [''exposure'', ''hazard'', ''vulnerability'']\<rparr>"
  have h: "filter (\<lambda>i. opt_name i = option_name ''exposure'')
             (OSEOSERVER_PROCESSING_OPTIONS ?conf) \<noteq> []"
    by (simp add: option_name_def)
  have w: "hd (filter (\<lambda>i. opt_name i = option_name ''exposure'')
             (OSEOSERVER_PROCESSING_OPTIONS ?conf))
        = \<lparr>opt_name = ''format'', opt_choices = [''shapefile'', ''geotiff'']\<rparr>"
    by (simp add: option_name_def)
  from validate_format_whitelist[OF h, of "''geotiff''"]
  have a: "validate_format ?conf ''geotiff'' ''exposure'' = Inr ()"
    unfolding w by simp
  from validate_format_whitelist[OF h, of "''bogus''"]
  have b: "validate_format ?conf ''bogus'' ''exposure''
             = Inl (ValidationError ''format'' ''invalid value'')"
    unfolding w by simp
  from h a b show ?thesis by blast
qed


section \<open>Order intake\<close>

lemma build_order_item_result:
  assumes "build_order_item conf bi item collection layer_v format_v bbox_v = Inr oi"
  shows "layer oi = layer_v \<and> format oi = format_v \<and> bbox oi = bbox_v
       \<and> (\<forall>cats. taxonomic_categories oi = Some cats \<longrightarrow>
             (\<exists>s. req_taxonomic_categories item = Some s
                  \<and> cats = map lower (split_on CHR '','' s)))"
  using assms
  by (auto simp: build_order_item_def Let_def dest: parse_categories_result
           split: if_splits option.splits sum.splits)

lemma validate_item_result:
  assumes "validate_item conf bi item = Some (Inr oi)"
  shows "format oi = lower (case req_format item of None \<Rightarrow> [] | Some f \<Rightarrow> f)
       \<and> (\<forall>cats. taxonomic_categories oi = Some cats \<longrightarrow>
             (\<exists>s. req_taxonomic_categories item = Some s
                  \<and> cats = map lower (split_on CHR '','' s)))"
proof -
  from assms obtain collection layer_v bbox_v where
    "build_order_item conf bi item collection layer_v
       (lower (case req_format item of None \<Rightarrow> [] | Some f \<Rightarrow> f)) bbox_v = Inr oi"
    unfolding validate_item_def Let_def
    by (auto split: option.splits if_splits sum.splits prod.splits)
  from build_order_item_result[OF this] show ?thesis by simp
qed

lemma items_loop_result:
  "items_loop conf bi items acc = Some (Inr out) \<Longrightarrow>
     \<exists>new. out = acc @ new
        \<and> list_all2 (\<lambda>item oi. validate_item conf bi item = Some (Inr oi)) items new"
proof (induction items arbitrary: acc)
  case Nil
  then show ?case by simp
next
  case (Cons item rest)
  from Cons.prems obtain oi where oi: "validate_item conf bi item = Some (Inr oi)"
    and r: "items_loop conf bi rest (acc @ [oi]) = Some (Inr out)"
    by (auto split: option.splits sum.splits)
  from Cons.IH[OF r] obtain new where "out = (acc @ [oi]) @ new"
    "list_all2 (\<lambda>item oi. validate_item conf bi item = Some (Inr oi)) rest new" by blast
  with oi have "out = acc @ (oi # new)
      \<and> list_all2 (\<lambda>item oi. validate_item conf bi item = Some (Inr oi)) (item # rest) (oi # new)"
    by simp
  then show ?case by blast
qed

lemma build_order_item_lowered:
  "build_order_item conf bi
     (item\<lparr>req_format := map_option lower (req_format item),
           req_taxonomic_categories := map_option lower (req_taxonomic_categories item)\<rparr>)
     collection layer_v format_v bbox_v
   = build_order_item conf bi item collection layer_v format_v bbox_v"
  by (cases "req_taxonomic_categories item")
     (simp_all add: build_order_item_def Let_def parse_categories_lowered)

lemma validate_item_lowered:
  "validate_item conf bi
     (item\<lparr>req_format := map_option lower (req_format item),
           req_taxonomic_categories := map_option lower (req_taxonomic_categories item)\<rparr>)
   = validate_item conf bi item"
proof -
  define item' where "item' = item\<lparr>req_format := map_option lower (req_format item),
           req_taxonomic_categories := map_option lower (req_taxonomic_categories item)\<rparr>"
  have a: "req_layer item' = req_layer item" "req_bbox item' = req_bbox item"
    by (simp_all add: item'_def)
  have f: "lower (case req_format item' of None \<Rightarrow> [] | Some f \<Rightarrow> f)
      = lower (case req_format item of None \<Rightarrow> [] | Some f \<Rightarrow> f)"
    by (cases "req_format item") (simp_all add: item'_def lower_idem)
  have b: "build_order_item conf bi item' = build_order_item conf bi item"
    by (intro ext) (simp add: item'_def build_order_item_lowered)
  have "validate_item conf bi item' = validate_item conf bi item"
    unfolding validate_item_def a f b ..
  then show ?thesis by (simp only: item'_def)
qed

lemma items_loop_lowered:
  "items_loop conf bi
     (map (\<lambda>item. item\<lparr>req_format := map_option lower (req_format item),
           req_taxonomic_categories := map_option lower (req_taxonomic_categories item)\<rparr>) items) acc
   = items_loop conf bi items acc"
  by (induction items arbitrary: acc)
     (simp_all add: validate_item_lowered split: option.splits sum.splits)

lemma parse_bbox_error:
  "parse_bbox bi s = Inl e \<Longrightarrow> \<exists>msg. e = ValidationError ''bbox'' msg"
  unfolding parse_bbox_def Let_def
  by (auto split: list.splits option.splits if_splits pyfloat.splits)

lemma parse_bbox_success:
  "parse_bbox bi s = Inr b \<longleftrightarrow>
     map (py_float bi) (split_on CHR '','' s)
       = [Some (Finite (x0 b)), Some (Finite (y0 b)), Some (Finite (x1 b)), Some (Finite (y1 b))]
     \<and> -180 \<le> x0 b \<and> x0 b \<le> 180 \<and> -180 \<le> x1 b \<and> x1 b \<le> 180
     \<and> -90 \<le> y0 b \<and> y0 b \<le> 90 \<and> -90 \<le> y1 b \<and> y1 b \<le> 90"
proof
  assume "parse_bbox bi s = Inr b"
  then show "map (py_float bi) (split_on CHR '','' s)
       = [Some (Finite (x0 b)), Some (Finite (y0 b)), Some (Finite (x1 b)), Some (Finite (y1 b))]
     \<and> -180 \<le> x0 b \<and> x0 b \<le> 180 \<and> -180 \<le> x1 b \<and> x1 b \<le> 180
     \<and> -90 \<le> y0 b \<and> y0 b \<le> 90 \<and> -90 \<le> y1 b \<and> y1 b \<le> 90"
    unfolding parse_bbox_def Let_def
    by (auto split: list.splits option.splits if_splits pyfloat.splits)
next
  assume "map (py_float bi) (split_on CHR '','' s)
       = [Some (Finite (x0 b)), Some (Finite (y0 b)), Some (Finite (x1 b)), Some (Finite (y1 b))]
     \<and> -180 \<le> x0 b \<and> x0 b \<le> 180 \<and> -180 \<le> x1 b \<and> x1 b \<le> 180
     \<and> -90 \<le> y0 b \<and> y0 b \<le> 90 \<and> -90 \<le> y1 b \<and> y1 b \<le> 90"
  then show "parse_bbox bi s = Inr b"
    unfolding parse_bbox_def Let_def by simp
qed

lemma validate_item_at_bbox:
  assumes "req_layer item = Some layer_v" "layer_v \<noteq> []"
    "validate_layer conf layer_v = Inr (collection, layer_name)"
    "format_v = lower (case req_format item of None \<Rightarrow> [] | Some f \<Rightarrow> f)" "format_v \<noteq> []"
    "validate_format conf format_v collection = Inr ()"
    "req_bbox item = Some bbox_str" "bbox_str \<noteq> []"
  shows "validate_item conf bi item =
     (case parse_bbox bi bbox_str of
        Inl e \<Rightarrow> Some (Inl e)
      | Inr parsed_bbox \<Rightarrow>
          (case bbox_snap_resolution conf of
             None \<Rightarrow> Some (build_order_item conf bi item collection layer_v format_v
                             (Some parsed_bbox))
           | Some grid_resolution \<Rightarrow>
               (case snap_bbox_to_grid grid_resolution (x0 parsed_bbox) (y0 parsed_bbox)
                       (x1 parsed_bbox) (y1 parsed_bbox) of
                  None \<Rightarrow> None
                | Some (Inl e) \<Rightarrow> Some (Inl e)
                | Some (Inr snapped_bbox) \<Rightarrow>
                    Some (build_order_item conf bi item collection layer_v format_v
                            (Some snapped_bbox)))))"
  using assms(2,5,8) unfolding validate_item_def Let_def assms(4)[symmetric]
  by (simp add: assms(1,3,6,7))

text \<open>C7, as amended: for an order item that passed the layer and format checks and
  carries a non-empty bbox string, the string parses exactly when it splits into four
  parts that \<open>float\<close> reads as finite numbers with \<open>x\<close> in \<open>[-180, 180]\<close> and \<open>y\<close> in
  \<open>[-90, 90]\<close>; when it does not parse, validation fails with an error on the field
  \<open>bbox\<close> (so for \<open>"a,b,c"\<close>); when it parses, the item is built with the parsed box if no
  resolution is configured, and with the result of \<open>snap_bbox_to_grid\<close> otherwise (an
  error or a non-returning call of the snap is the outcome of the validation).\<close>

theorem validate_item_bbox:
  assumes "req_layer item = Some layer_v" and "layer_v \<noteq> []"
    and "validate_layer conf layer_v = Inr (collection, layer_name)"
    and "format_v = lower (case req_format item of None \<Rightarrow> [] | Some f \<Rightarrow> f)"
    and "format_v \<noteq> []"
    and "validate_format conf format_v collection = Inr ()"
    and "req_bbox item = Some bbox_str" and "bbox_str \<noteq> []"
  shows "(parse_bbox bi bbox_str = Inr b \<longleftrightarrow>
            map (py_float bi) (split_on CHR '','' bbox_str)
              = [Some (Finite (x0 b)), Some (Finite (y0 b)),
                 Some (Finite (x1 b)), Some (Finite (y1 b))]
          \<and> -180 \<le> x0 b \<and> x0 b \<le> 180 \<and> -180 \<le> x1 b \<and> x1 b \<le> 180
          \<and> -90 \<le> y0 b \<and> y0 b \<le> 90 \<and> -90 \<le> y1 b \<and> y1 b \<le> 90)
       \<and> ((\<forall>p. parse_bbox bi bbox_str \<noteq> Inr p) \<longrightarrow>
            (\<exists>msg. validate_item conf bi item = Some (Inl (ValidationError ''bbox'' msg))))
       \<and> (parse_bbox bi bbox_str = Inr b \<and> bbox_snap_resolution conf = None \<longrightarrow>
            validate_item conf bi item
              = Some (build_order_item conf bi item collection layer_v format_v (Some b)))
       \<and> (parse_bbox bi bbox_str = Inr b \<and> bbox_snap_resolution conf = Some r \<longrightarrow>
            validate_item conf bi item
              = (case snap_bbox_to_grid r (x0 b) (y0 b) (x1 b) (y1 b) of
                   None \<Rightarrow> None
                 | Some (Inl e) \<Rightarrow> Some (Inl e)
                 | Some (Inr snapped_bbox) \<Rightarrow>
                     Some (build_order_item conf bi item collection layer_v format_v
                             (Some snapped_bbox))))
       \<and> (bbox_str = ''a,b,c'' \<longrightarrow>
            validate_item conf bi item
              = Some (Inl (ValidationError ''bbox'' ''Invalid numeric values'')))"
proof -
  note red = validate_item_at_bbox[OF assms, of bi]
  have c1: "parse_bbox bi bbox_str = Inr b \<longleftrightarrow>
            map (py_float bi) (split_on CHR '','' bbox_str)
              = [Some (Finite (x0 b)), Some (Finite (y0 b)),
                 Some (Finite (x1 b)), Some (Finite (y1 b))]
          \<and> -180 \<le> x0 b \<and> x0 b \<le> 180 \<and> -180 \<le> x1 b \<and> x1 b \<le> 180
          \<and> -90 \<le> y0 b \<and> y0 b \<le> 90 \<and> -90 \<le> y1 b \<and> y1 b \<le> 90"
    by (rule parse_bbox_success)
  have c2: "(\<forall>p. parse_bbox bi bbox_str \<noteq> Inr p) \<longrightarrow>
            (\<exists>msg. validate_item conf bi item = Some (Inl (ValidationError ''bbox'' msg)))"
  proof
    assume "\<forall>p. parse_bbox bi bbox_str \<noteq> Inr p"
    then obtain e where e: "parse_bbox bi bbox_str = Inl e"
      by (cases "parse_bbox bi bbox_str") auto
    from parse_bbox_error[OF e] obtain msg where "e = ValidationError ''bbox'' msg" by blast
    with e have "validate_item conf bi item = Some (Inl (ValidationError ''bbox'' msg))"
      unfolding red by simp
    then show "\<exists>msg. validate_item conf bi item = Some (Inl (ValidationError ''bbox'' msg))"
      by blast
  qed
  have c3: "parse_bbox bi bbox_str = Inr b \<and> bbox_snap_resolution conf = None \<longrightarrow>
            validate_item conf bi item
              = Some (build_order_item conf bi item collection layer_v format_v (Some b))"
    unfolding red by simp
  have c4: "parse_bbox bi bbox_str = Inr b \<and> bbox_snap_resolution conf = Some r \<longrightarrow>
            validate_item conf bi item
              = (case snap_bbox_to_grid r (x0 b) (y0 b) (x1 b) (y1 b) of
                   None \<Rightarrow> None
                 | Some (Inl e) \<Rightarrow> Some (Inl e)
                 | Some (Inr snapped_bbox) \<Rightarrow>
                     Some (build_order_item conf bi item collection layer_v format_v
                             (Some snapped_bbox)))"
    unfolding red by simp
  have p: "parse_bbox bi ''a,b,c'' = Inl (ValidationError ''bbox'' ''Invalid numeric values'')"
    by (simp add: parse_bbox_def split: option.splits)
  have c5: "bbox_str = ''a,b,c'' \<longrightarrow>
            validate_item conf bi item
              = Some (Inl (ValidationError ''bbox'' ''Invalid numeric values''))"
    unfolding red using p by simp
  show ?thesis
    by (rule conjI[OF c1 conjI[OF c2 conjI[OF c3 conjI[OF c4 c5]]]])
qed

theorem validate_item_bbox_witness:
  "validate_item
        \<lparr>OSEOSERVER_PROCESSING_OPTIONS =
            [\<lparr>opt_name = ''format'', opt_choices = [''shapefile'', ''geotiff'']\<rparr>],
          bbox_snap_resolution = Some 90, taxonomy_mapping = [],
          dataset_types = [''exposure'', ''hazard'', ''vulnerability'']\<rparr>
        \<lparr>py_float = (\<lambda>s. if s = ''10'' then Some (Finite 10) else
                           if s = ''20'' then Some (Finite 20) else
                           if s = ''30'' then Some (Finite 30) else
                           if s = ''40'' then Some (Finite 40) else None),
          py_int = (\<lambda>s. None)\<rparr>
        \<lparr>req_layer = Some ''hazard:flood'', req_format = Some ''GeoTIFF'',
          req_bbox = Some ''10,20,30,40'', req_taxonomic_categories = None,
          req_event_ids = None\<rparr>
      = Some (Inr \<lparr>layer = ''hazard:flood'', format = ''geotiff'',
                    bbox = Some \<lparr>x0 = 0, y0 = 0, x1 = 90, y1 = 90\<rparr>,
                    taxonomic_categories = None, event_ids = None\<rparr>)"
proof -
  let ?conf = "\<lparr>OSEOSERVER_PROCESSING_OPTIONS =
            [\<lparr>opt_name = ''format'', opt_choices = [''shapefile'', ''geotiff'']\<rparr>],
          bbox_snap_resolution = Some 90, taxonomy_mapping = [],
          dataset_types = [''exposure'', ''hazard'', ''vulnerability'']\<rparr>"
  let ?bi = "\<lparr>py_float = (\<lambda>s. if s = ''10'' then Some (Finite 10) else
                           if s = ''20'' then Some (Finite 20) else
                           if s = ''30'' then Some (Finite 30) else
                           if s = ''40'' then Some (Finite 40) else None),
          py_int = (\<lambda>s. None)\<rparr>"
  let ?item = "\<lparr>req_layer = Some ''hazard:flood'', req_format = Some ''GeoTIFF'',
          req_bbox = Some ''10,20,30,40'', req_taxonomic_categories = None,
          req_event_ids = None\<rparr>"
  let ?b = "\<lparr>x0 = 10, y0 = 20, x1 = 30, y1 = 40\<rparr> :: bbox"
  have h1: "req_layer ?item = Some ''hazard:flood''" by simp
  have h2: "''hazard:flood'' \<noteq> []" by simp
  have h3: "validate_layer ?conf ''hazard:flood'' = Inr (''hazard'', ''flood'')"
    by (simp add: validate_layer_def partition_on_def)
  have "lower ''GeoTIFF'' = ''geotiff''" by code_simp
  then have h4: "''geotiff'' = lower (case req_format ?item of None \<Rightarrow> [] | Some f \<Rightarrow> f)"
    by simp
  have h5: "''geotiff'' \<noteq> []" by simp
  have h6: "validate_format ?conf ''geotiff'' ''hazard'' = Inr ()"
    by (simp add: validate_format_def option_name_def)
  have h7: "req_bbox ?item = Some ''10,20,30,40''" by simp
  have h8: "''10,20,30,40'' \<noteq> []" by simp
  have p: "parse_bbox ?bi ''10,20,30,40'' = Inr ?b"
    by (simp add: parse_bbox_def)
  have r: "bbox_snap_resolution ?conf = Some 90" by simp
  have s: "snap_bbox_to_grid 90 10 20 30 40 = Some (Inr \<lparr>x0 = 0, y0 = 0, x1 = 90, y1 = 90\<rparr>)"
    by (simp add: snap_bbox_to_grid_def generate_1d_grid_def count_loop.simps
      enlarge_coordinate_def snap_value_def getitem_def Let_def
      fl_numeral fl_neg_numeral fl_zero fl_one fl_minus)
  have bo: "build_order_item ?conf ?bi ?item ''hazard'' ''hazard:flood'' ''geotiff''
              (Some \<lparr>x0 = 0, y0 = 0, x1 = 90, y1 = 90\<rparr>)
      = Inr \<lparr>layer = ''hazard:flood'', format = ''geotiff'',
                    bbox = Some \<lparr>x0 = 0, y0 = 0, x1 = 90, y1 = 90\<rparr>,
                    taxonomic_categories = None, event_ids = None\<rparr>"
    by (simp add: build_order_item_def)
  from validate_item_bbox[OF h1 h2 h3 h4 h5 h6 h7 h8, of ?bi ?b 90]
  have "validate_item ?conf ?bi ?item
              = (case snap_bbox_to_grid 90 (x0 ?b) (y0 ?b) (x1 ?b) (y1 ?b) of
                   None \<Rightarrow> None
                 | Some (Inl e) \<Rightarrow> Some (Inl e)
                 | Some (Inr snapped_bbox) \<Rightarrow>
                     Some (build_order_item ?conf ?bi ?item ''hazard'' ''hazard:flood'' ''geotiff''
                             (Some snapped_bbox)))"
    using p r by blast
  then show ?thesis using s bo by simp
qed

text \<open>C7, as stated, for every item carrying a bbox string: the empty string does not
  split into four parts, yet \<open>if bbox_str:\<close> treats it as absent and the item is
  accepted with no bbox.\<close>

theorem validate_item_empty_bbox_counterexample:
  "split_on CHR '','' '''' = ['''']
   \<and> validate_item
        \<lparr>OSEOSERVER_PROCESSING_OPTIONS =
            [\<lparr>opt_name = ''format'', opt_choices = [''shapefile'', ''geotiff'']\<rparr>],
          bbox_snap_resolution = None, taxonomy_mapping = [],
          dataset_types = [''exposure'', ''hazard'', ''vulnerability'']\<rparr>
        \<lparr>py_float = (\<lambda>s. None), py_int = (\<lambda>s. None)\<rparr>
        \<lparr>req_layer = Some ''exposure:res1'', req_format = Some ''geotiff'',
          req_bbox = Some '''', req_taxonomic_categories = None, req_event_ids = None\<rparr>
      = Some (Inr \<lparr>layer = ''exposure:res1'', format = ''geotiff'', bbox = None,
                    taxonomic_categories = None, event_ids = None\<rparr>)"
  by (simp add: validate_item_def validate_layer_def validate_format_def option_name_def
        partition_on_def lower_def lower_char_def is_upper_def build_order_item_def)


text \<open>C10: when \<open>to_internal_value\<close> accepts a request, each validated item stores the
  lowercased format of its incoming item and, where it has taxonomic categories, the
  lowercased tokens of the incoming category string; no stored format or category
  holds an uppercase character. Validation does not depend on the case of the incoming
  formats and categories: lowercasing them in the request gives the same outcome.\<close>

theorem to_internal_value_lowercase:
  assumes "to_internal_value conf bi data = Some (Inr out)"
  shows "(\<exists>items. req_order_items data = Some items
           \<and> list_all2 (\<lambda>item oi.
                 format oi = lower (case req_format item of None \<Rightarrow> [] | Some f \<Rightarrow> f)
               \<and> (\<forall>c \<in> set (format oi). \<not> is_upper c)
               \<and> (\<forall>cats. taxonomic_categories oi = Some cats \<longrightarrow>
                     (\<exists>s. req_taxonomic_categories item = Some s
                          \<and> cats = map lower (split_on CHR '','' s))
                   \<and> (\<forall>cat \<in> set cats. \<forall>c \<in> set cat. \<not> is_upper c)))
               items (order_items out))
       \<and> to_internal_value conf bi
           (data\<lparr>req_order_items :=
               map_option (map (\<lambda>item. item\<lparr>req_format := map_option lower (req_format item),
                     req_taxonomic_categories :=
                       map_option lower (req_taxonomic_categories item)\<rparr>))
                 (req_order_items data)\<rparr>)
         = to_internal_value conf bi data"
proof
  from assms obtain items where items: "req_order_items data = Some items" "items \<noteq> []"
    and loop: "items_loop conf bi items [] = Some (Inr (order_items out))"
    unfolding to_internal_value_def
    by (auto split: option.splits if_splits sum.splits)
  from items_loop_result[OF loop]
  have all: "list_all2 (\<lambda>item oi. validate_item conf bi item = Some (Inr oi)) items (order_items out)"
    by simp
  have "list_all2 (\<lambda>item oi.
                 format oi = lower (case req_format item of None \<Rightarrow> [] | Some f \<Rightarrow> f)
               \<and> (\<forall>c \<in> set (format oi). \<not> is_upper c)
               \<and> (\<forall>cats. taxonomic_categories oi = Some cats \<longrightarrow>
                     (\<exists>s. req_taxonomic_categories item = Some s
                          \<and> cats = map lower (split_on CHR '','' s))
                   \<and> (\<forall>cat \<in> set cats. \<forall>c \<in> set cat. \<not> is_upper c)))
               items (order_items out)"
  proof (rule list_all2_mono[OF all])
    fix item oi
    assume "validate_item conf bi item = Some (Inr oi)"
    note r = validate_item_result[OF this]
    have f: "format oi = lower (case req_format item of None \<Rightarrow> [] | Some f \<Rightarrow> f)"
      using r by simp
    have u: "\<forall>c \<in> set (format oi). \<not> is_upper c"
      unfolding f using lower_no_upper by blast
    have c: "(\<exists>s. req_taxonomic_categories item = Some s
                          \<and> cats = map lower (split_on CHR '','' s))
           \<and> (\<forall>cat \<in> set cats. \<forall>c \<in> set cat. \<not> is_upper c)"
      if "taxonomic_categories oi = Some cats" for cats
    proof -
      from r that obtain s where s: "req_taxonomic_categories item = Some s"
        "cats = map lower (split_on CHR '','' s)" by blast
      have "\<forall>cat \<in> set cats. \<forall>c \<in> set cat. \<not> is_upper c"
        unfolding s(2) using lower_no_upper by auto
      with s show ?thesis by blast
    qed
    from f u c show "format oi = lower (case req_format item of None \<Rightarrow> [] | Some f \<Rightarrow> f)
               \<and> (\<forall>c \<in> set (format oi). \<not> is_upper c)
               \<and> (\<forall>cats. taxonomic_categories oi = Some cats \<longrightarrow>
                     (\<exists>s. req_taxonomic_categories item = Some s
                          \<and> cats = map lower (split_on CHR '','' s))
                   \<and> (\<forall>cat \<in> set cats. \<forall>c \<in> set cat. \<not> is_upper c))"
      by blast
  qed
  with items(1) show "\<exists>items. req_order_items data = Some items
           \<and> list_all2 (\<lambda>item oi.
                 format oi = lower (case req_format item of None \<Rightarrow> [] | Some f \<Rightarrow> f)
               \<and> (\<forall>c \<in> set (format oi). \<not> is_upper c)
               \<and> (\<forall>cats. taxonomic_categories oi = Some cats \<longrightarrow>
                     (\<exists>s. req_taxonomic_categories item = Some s
                          \<and> cats = map lower (split_on CHR '','' s))
                   \<and> (\<forall>cat \<in> set cats. \<forall>c \<in> set cat. \<not> is_upper c)))
               items (order_items out)"
    by blast
next
  show "to_internal_value conf bi
           (data\<lparr>req_order_items :=
               map_option (map (\<lambda>item. item\<lparr>req_format := map_option lower (req_format item),
                     req_taxonomic_categories :=
                       map_option lower (req_taxonomic_categories item)\<rparr>))
                 (req_order_items data)\<rparr>)
         = to_internal_value conf bi data"
    by (cases "req_order_items data")
       (simp_all add: to_internal_value_def items_loop_lowered split: option.splits sum.splits)
qed

theorem to_internal_value_lowercase_witness:
  "to_internal_value
     \<lparr>OSEOSERVER_PROCESSING_OPTIONS =
         [\<lparr>opt_name = ''format'', opt_choices = [''shapefile'', ''geotiff'']\<rparr>],
       bbox_snap_resolution = None,
       taxonomy_mapping = [(''structural'', [''concrete'', ''wood''])],
       dataset_types = [''exposure'', ''hazard'', ''vulnerability'']\<rparr>
     \<lparr>py_float = (\<lambda>s. None), py_int = (\<lambda>s. None)\<rparr>
     \<lparr>req_order_items = Some
         [\<lparr>req_layer = Some ''exposure:res1'', req_format = Some ''GeoTIFF'',
           req_bbox = None, req_taxonomic_categories = Some ''Structural:Concrete'',
           req_event_ids = None\<rparr>],
       req_notification_email = None\<rparr>
   = Some (Inr \<lparr>order_items =
         [\<lparr>layer = ''exposure:res1'', format = ''geotiff'', bbox = None,
           taxonomic_categories = Some [''structural:concrete''], event_ids = None\<rparr>],
       notification_email = None\<rparr>)
   \<and> (\<exists>items. req_order_items
           \<lparr>req_order_items = Some
         [\<lparr>req_layer = Some ''exposure:res1'', req_format = Some ''GeoTIFF'',
           req_bbox = None, req_taxonomic_categories = Some ''Structural:Concrete'',
           req_event_ids = None\<rparr>],
       req_notification_email = None\<rparr> = Some items
         \<and> list_all2 (\<lambda>item oi.
                 format oi = lower (case req_format item of None \<Rightarrow> [] | Some f \<Rightarrow> f)
               \<and> (\<forall>c \<in> set (format oi). \<not> is_upper c)
               \<and> (\<forall>cats. taxonomic_categories oi = Some cats \<longrightarrow>
                     (\<exists>s. req_taxonomic_categories item = Some s
                          \<and> cats = map lower (split_on CHR '','' s))
                   \<and> (\<forall>cat \<in> set cats. \<forall>c \<in> set cat. \<not> is_upper c)))
               items (order_items
           \<lparr>order_items =
         [\<lparr>layer = ''exposure:res1'', format = ''geotiff'', bbox = None,
           taxonomic_categories = Some [''structural:concrete''], event_ids = None\<rparr>],
       notification_email = None\<rparr>))"
proof -
  let ?conf = "\<lparr>OSEOSERVER_PROCESSING_OPTIONS =
         [\<lparr>opt_name = ''format'', opt_choices = [''shapefile'', ''geotiff'']\<rparr>],
       bbox_snap_resolution = None,
       taxonomy_mapping = [(''structural'', [''concrete'', ''wood''])],
       dataset_types = [''exposure'', ''hazard'', ''vulnerability'']\<rparr>"
  let ?bi = "\<lparr>py_float = (\<lambda>s. None), py_int = (\<lambda>s. None)\<rparr>"
  let ?data = "\<lparr>req_order_items = Some
         [\<lparr>req_layer = Some ''exposure:res1'', req_format = Some ''GeoTIFF'',
           req_bbox = None, req_taxonomic_categories = Some ''Structural:Concrete'',
           req_event_ids = None\<rparr>],
       req_notification_email = None\<rparr>"
  let ?out = "\<lparr>order_items =
         [\<lparr>layer = ''exposure:res1'', format = ''geotiff'', bbox = None,
           taxonomic_categories = Some [''structural:concrete''], event_ids = None\<rparr>],
       notification_email = None\<rparr>"
  have l1: "lower ''GeoTIFF'' = ''geotiff''" by code_simp
  have l2: "lower ''Structural:Concrete'' = ''structural:concrete''" by code_simp
  have h: "to_internal_value ?conf ?bi ?data = Some (Inr ?out)"
    by (simp add: to_internal_value_def validate_item_def validate_layer_def
          validate_format_def option_name_def partition_on_def build_order_item_def
          parse_categories_def l1 l2)
  from to_internal_value_lowercase[OF h] h show ?thesis by blast
qed

end
